theory Spec2Isabelle
  imports Main
begin

section \<open>Python strings\<close>

text \<open>
  A Python \<^verbatim>\<open>str\<close> is a sequence of Unicode code points, and \<^verbatim>\<open>len\<close> counts code
  points. A string is therefore a list of code points (natural numbers); \<open>lit\<close> turns an
  ASCII literal into such a list. Code points beyond ASCII are written as numbers.
\<close>

type_synonym pystr = "nat list"

definition lit :: "string \<Rightarrow> pystr" where
  "lit s = map of_char s"

text \<open>
  \<^verbatim>\<open>str.isspace\<close> for one code point. The same set is what \<^verbatim>\<open>str.strip()\<close> removes
  and what \<^verbatim>\<open>\s\<close> matches in a \<^verbatim>\<open>str\<close> pattern of \<^verbatim>\<open>re\<close>.
\<close>

definition is_space :: "nat \<Rightarrow> bool" where
  "is_space c =
     ((9 \<le> c \<and> c \<le> 13) \<or> (28 \<le> c \<and> c \<le> 32) \<or> c = 133 \<or> c = 160 \<or> c = 5760 \<or>
      (8192 \<le> c \<and> c \<le> 8202) \<or> c = 8232 \<or> c = 8233 \<or> c = 8239 \<or> c = 8287 \<or>
      c = 12288)"

definition lstrip :: "pystr \<Rightarrow> pystr" where
  "lstrip s = dropWhile is_space s"

definition rstrip :: "pystr \<Rightarrow> pystr" where
  "rstrip s = rev (dropWhile is_space (rev s))"

definition strip :: "pystr \<Rightarrow> pystr" where
  "strip s = rstrip (lstrip s)"

text \<open>\<^verbatim>\<open>s.startswith(prefix)\<close>.\<close>

definition startswith :: "pystr \<Rightarrow> pystr \<Rightarrow> bool" where
  "startswith s prefix = (take (length prefix) s = prefix)"

text \<open>\<^verbatim>\<open>sep.join(xs)\<close>.\<close>

fun str_join :: "pystr \<Rightarrow> pystr list \<Rightarrow> pystr" where
  "str_join sep [] = []"
| "str_join sep [x] = x"
| "str_join sep (x # y # ys) = x @ sep @ str_join sep (y # ys)"

text \<open>
  \<^verbatim>\<open>str.splitlines()\<close>: the line boundaries are LF, VT, FF, CR, CR LF, FS, GS, RS, NEL,
  LS and PS; the boundaries are dropped, and a trailing boundary opens no empty last
  line.
\<close>

definition is_linebreak :: "nat \<Rightarrow> bool" where
  "is_linebreak c =
     ((10 \<le> c \<and> c \<le> 13) \<or> (28 \<le> c \<and> c \<le> 30) \<or> c = 133 \<or> c = 8232 \<or> c = 8233)"

fun splitlines_from :: "pystr \<Rightarrow> pystr \<Rightarrow> pystr list" where
  "splitlines_from cur [] = (if cur = [] then [] else [cur])"
| "splitlines_from cur [c] = (if is_linebreak c then [cur] else [cur @ [c]])"
| "splitlines_from cur (c # d # cs) =
     (if c = 13 \<and> d = 10 then cur # splitlines_from [] cs
      else if is_linebreak c then cur # splitlines_from [] (d # cs)
      else splitlines_from (cur @ [c]) (d # cs))"

definition splitlines :: "pystr \<Rightarrow> pystr list" where
  "splitlines s = splitlines_from [] s"

text \<open>
  \<^verbatim>\<open>str.lower()\<close> depends on the Unicode case tables (and on context, for the final
  sigma). The functions below take it as a parameter \<open>lower\<close>, so what is proved holds
  for every lowercasing. \<open>ascii_lower\<close> agrees with Python on strings made of ASCII and
  uncased (for instance CJK) code points, and is used for the concrete examples.
\<close>

definition ascii_lower :: "pystr \<Rightarrow> pystr" where
  "ascii_lower s = map (\<lambda>c. if 65 \<le> c \<and> c \<le> 90 then c + 32 else c) s"

section \<open>The response cleaning of the translation client\<close>

text \<open>
  \<^verbatim>\<open>TRANSLATION_TAG_RE = re.compile(r"<translation>(.*?)</translation>",
  re.IGNORECASE | re.DOTALL)\<close>.
  Under \<^verbatim>\<open>IGNORECASE\<close> a letter of the pattern matches its two ASCII cases, the letter
  \<open>s\<close> also matches U+017F, and \<open>i\<close> also U+0130 and U+0131; every other
  character of the pattern matches itself only.
\<close>

definition ci_char :: "nat \<Rightarrow> nat \<Rightarrow> bool" where
  "ci_char p c =
     (c = p \<or> (97 \<le> p \<and> p \<le> 122 \<and> c + 32 = p) \<or> (p = 115 \<and> c = 383) \<or>
      (p = 105 \<and> (c = 304 \<or> c = 305)))"

fun ci_prefix :: "pystr \<Rightarrow> pystr \<Rightarrow> bool" where
  "ci_prefix [] s = True"
| "ci_prefix (p # ps) [] = False"
| "ci_prefix (p # ps) (c # cs) = (ci_char p c \<and> ci_prefix ps cs)"

text \<open>The first position of \<open>s\<close> at which the literal pattern matches.\<close>

fun ci_find :: "pystr \<Rightarrow> pystr \<Rightarrow> nat option" where
  "ci_find pat [] = (if pat = [] then Some 0 else None)"
| "ci_find pat (c # cs) =
     (if ci_prefix pat (c # cs) then Some 0 else map_option Suc (ci_find pat cs))"

definition open_tag :: pystr where
  "open_tag = lit ''<translation>''"

definition close_tag :: pystr where
  "close_tag = lit ''</translation>''"

text \<open>
  \<^verbatim>\<open>TRANSLATION_TAG_RE.search(raw)\<close>, giving \<^verbatim>\<open>match.group(1)\<close>: the search takes the
  leftmost opening tag; the lazy \<^verbatim>\<open>(.*?)\<close>, which crosses line ends under \<^verbatim>\<open>DOTALL\<close>,
  stops at the first closing tag after it. When no closing tag follows the leftmost
  opening tag, none follows a later one either, and the search fails.
\<close>

definition tag_search :: "pystr \<Rightarrow> pystr option" where
  "tag_search raw =
     (case ci_find open_tag raw of
        None \<Rightarrow> None
      | Some i \<Rightarrow>
          (let rest = drop (i + length open_tag) raw in
           case ci_find close_tag rest of
             None \<Rightarrow> None
           | Some j \<Rightarrow> Some (take j rest)))"

definition INFERENCE_PREFIXES :: "pystr list" where
  "INFERENCE_PREFIXES =
     [[24605, 32771], [25512, 29702], [20998, 26512],
      lit ''reasoning'', lit ''analysis'', lit ''thought'',
      lit ''original'', lit ''source'', lit ''translation'']"

text \<open>The loop of \<^verbatim>\<open>extract_translation_only\<close> over the lines of the raw response.\<close>

fun cleaned_lines :: "(pystr \<Rightarrow> pystr) \<Rightarrow> pystr list \<Rightarrow> pystr list" where
  "cleaned_lines lower [] = []"
| "cleaned_lines lower (line # ls) =
     (let stripped = strip line in
      if stripped = [] then cleaned_lines lower ls
      else
        let lowered = lower stripped in
        if list_ex (\<lambda>prefix. startswith lowered prefix) INFERENCE_PREFIXES
        then cleaned_lines lower ls
        else stripped # cleaned_lines lower ls)"

definition extract_translation_only :: "(pystr \<Rightarrow> pystr) \<Rightarrow> pystr \<Rightarrow> pystr" where
  "extract_translation_only lower raw =
     (if raw = [] then []
      else
        let candidate = (case tag_search raw of None \<Rightarrow> [] | Some g \<Rightarrow> strip g) in
        if candidate \<noteq> [] then candidate
        else strip (str_join [10] (cleaned_lines lower (splitlines raw))))"

text \<open>
  Lines 95 and 96 of \<^verbatim>\<open>_translate_once\<close>:
  \<^verbatim>\<open>cleaned = extract_translation_only(raw_text); return cleaned or text\<close>.
\<close>

definition cleaned_or_text :: "(pystr \<Rightarrow> pystr) \<Rightarrow> pystr \<Rightarrow> pystr \<Rightarrow> pystr" where
  "cleaned_or_text lower text raw_text =
     (let cleaned = extract_translation_only lower raw_text in
      if cleaned \<noteq> [] then cleaned else text)"

section \<open>The chunk splitter\<close>

text \<open>
  \<^verbatim>\<open>SENTENCE_SPLIT_RE = re.compile(r"(?<=[\.\!\?\u3002\uff01\uff1f])\s+")\<close>:
  a separator is a maximal run of whitespace that stands right after one of the six
  sentence terminators.
\<close>

definition is_terminator :: "nat \<Rightarrow> bool" where
  "is_terminator c =
     (c = 46 \<or> c = 33 \<or> c = 63 \<or> c = 12290 \<or> c = 65281 \<or> c = 65311)"

text \<open>
  \<^verbatim>\<open>SENTENCE_SPLIT_RE.split(text)\<close>, scanning from the left; \<open>cur\<close> is the part read
  so far. The last part is always returned, also when it is empty.
\<close>

function sentence_split_from :: "pystr \<Rightarrow> pystr \<Rightarrow> pystr list" where
  "sentence_split_from cur [] = [cur]"
| "sentence_split_from cur (c # cs) =
     (if is_space c \<and> cur \<noteq> [] \<and> is_terminator (last cur)
      then cur # sentence_split_from [] (dropWhile is_space cs)
      else sentence_split_from (cur @ [c]) cs)"
  by pat_completeness auto
termination
  by (relation "measure (\<lambda>(cur, s). length s)")
     (auto simp: less_Suc_eq_le length_dropWhile_le)

definition sentence_split :: "pystr \<Rightarrow> pystr list" where
  "sentence_split s = sentence_split_from [] s"

text \<open>
  The loop of \<^verbatim>\<open>split_text\<close> over the parts, with the list \<open>chunks\<close> and the buffer
  \<open>buf\<close> as its state; the equation for the empty list is the code after the loop.
  \<open>max_chars\<close> is a Python \<^verbatim>\<open>int\<close>.
\<close>

fun split_text_loop :: "int \<Rightarrow> pystr list \<Rightarrow> pystr \<Rightarrow> pystr list \<Rightarrow> pystr list" where
  "split_text_loop max_chars chunks buf [] = (if buf \<noteq> [] then chunks @ [buf] else chunks)"
| "split_text_loop max_chars chunks buf (part # parts) =
     (if part = [] then split_text_loop max_chars chunks buf parts
      else if int (length buf) + int (length part) + 1 \<le> max_chars
      then split_text_loop max_chars chunks (strip (buf @ [32] @ part)) parts
      else split_text_loop max_chars (if buf \<noteq> [] then chunks @ [buf] else chunks) part parts)"

definition split_text :: "pystr \<Rightarrow> int \<Rightarrow> pystr list" where
  "split_text text max_chars = split_text_loop max_chars [] [] (sentence_split text)"

section \<open>The translation client\<close>

subsection \<open>The generation service\<close>

text \<open>
  \<^verbatim>\<open>requests.post(url, json=payload, timeout=120)\<close> is the only effect of the client
  besides \<^verbatim>\<open>time.sleep\<close>. A request is the URL and the JSON payload (both payloads
  carry \<^verbatim>\<open>"stream": False\<close>). The service is any function from its own state and a
  request to an outcome and a new state: the call raises (connection error, timeout), or
  it returns a response with a status code and a body. Of the body only what lines 89 to
  94 read is kept: the field \<^verbatim>\<open>response\<close> and the field \<^verbatim>\<open>message.content\<close>, each
  absent or a string. A body for which \<^verbatim>\<open>response.json()\<close> or one of the reads
  raises (no JSON, not an object, a field that is not a string) is \<open>None\<close>.
\<close>

datatype payload =
  Generate_payload pystr pystr
| Chat_payload pystr pystr pystr

datatype request = Post pystr payload

record json_body =
  response_field :: "pystr option"
  message_content :: "pystr option"

record response =
  status_code :: nat
  json :: "json_body option"

datatype post_result = Raised | Returned response

type_synonym 'w service = "'w \<Rightarrow> request \<Rightarrow> post_result \<times> 'w"

text \<open>
  The state outside the client: the state of the service, the requests posted so far,
  the seconds slept so far, and (for the statements about the number of logical calls)
  the arguments of the calls of \<^verbatim>\<open>_translate_once\<close> so far.
\<close>

record 'w io =
  world :: 'w
  posted :: "request list"
  slept :: nat
  once_calls :: "pystr list"

definition post :: "'w service \<Rightarrow> request \<Rightarrow> 'w io \<Rightarrow> post_result \<times> 'w io" where
  "post srv req s =
     (case srv (world s) req of
        (r, w) \<Rightarrow> (r, s\<lparr>world := w, posted := posted s @ [req]\<rparr>))"

subsection \<open>The client\<close>

datatype error = RuntimeError

record translator =
  model :: pystr
  url :: pystr
  max_chars :: int
  retry :: int
  cache :: "pystr \<rightharpoonup> pystr"

text \<open>\<^verbatim>\<open>OllamaTranslator.__init__\<close>; \<^verbatim>\<open>url.rstrip("/")\<close> drops the trailing slashes.\<close>

definition OllamaTranslator :: "pystr \<Rightarrow> pystr \<Rightarrow> int \<Rightarrow> int \<Rightarrow> translator" where
  "OllamaTranslator m u mc r =
     \<lparr>model = m, url = rev (dropWhile (\<lambda>c. c = 47) (rev u)), max_chars = mc, retry = r,
      cache = Map.empty\<rparr>"

definition instruction :: pystr where
  "instruction =
     lit (''Translate the following English text to Simplified Chinese only. '' @
          ''Do not explain, show reasoning, or repeat the English text. '' @
          ''Wrap the final translation inside <translation> and </translation> tags.'')"

text \<open>Python's \<^verbatim>\<open>a or b\<close> on values that are \<^verbatim>\<open>None\<close> or strings.\<close>

definition py_or :: "pystr option \<Rightarrow> pystr option \<Rightarrow> pystr option" where
  "py_or a b = (case a of None \<Rightarrow> b | Some s \<Rightarrow> if s = [] then b else a)"

text \<open>\<^verbatim>\<open>response.raise_for_status()\<close> raises for the status codes 400 to 599.\<close>

definition raises_for_status :: "response \<Rightarrow> bool" where
  "raises_for_status r = (400 \<le> status_code r \<and> status_code r < 600)"

text \<open>
  The body of the \<^verbatim>\<open>try\<close> of \<^verbatim>\<open>_translate_once\<close>, one attempt: \<open>Some\<close> is the value
  it returns, \<open>None\<close> an exception, which the \<^verbatim>\<open>except\<close> clause catches.
\<close>

definition attempt ::
  "(pystr \<Rightarrow> pystr) \<Rightarrow> 'w service \<Rightarrow> translator \<Rightarrow> pystr \<Rightarrow> 'w io \<Rightarrow> pystr option \<times> 'w io"
where
  "attempt lower srv t text s =
     (case post srv (Post (url t @ lit ''/api/generate'')
                      (Generate_payload (model t) (instruction @ [10, 10] @ text))) s of
        (Raised, s1) \<Rightarrow> (None, s1)
      | (Returned first, s1) \<Rightarrow>
          (case (if status_code first = 404
                 then post srv (Post (url t @ lit ''/api/chat'')
                                 (Chat_payload (model t) instruction text)) s1
                 else (Returned first, s1)) of
             (Raised, s2) \<Rightarrow> (None, s2)
           | (Returned resp, s2) \<Rightarrow>
               if raises_for_status resp then (None, s2)
               else
                 (case json resp of
                    None \<Rightarrow> (None, s2)
                  | Some data \<Rightarrow>
                      (let raw_text =
                             strip (case py_or (response_field data)
                                           (py_or (message_content data) (Some [])) of
                                      None \<Rightarrow> [] | Some r \<Rightarrow> r)
                       in (Some (cleaned_or_text lower text raw_text), s2)))))"

text \<open>
  The \<^verbatim>\<open>for _ in range(self.retry + 1)\<close> loop with \<open>n\<close> rounds left. Every failed
  attempt is followed by \<^verbatim>\<open>time.sleep(1)\<close>; when no round is left the function raises
  \<^verbatim>\<open>RuntimeError\<close>.
\<close>

fun retry_loop ::
  "(pystr \<Rightarrow> pystr) \<Rightarrow> 'w service \<Rightarrow> translator \<Rightarrow> pystr \<Rightarrow> nat \<Rightarrow> 'w io \<Rightarrow> (error + pystr) \<times> 'w io"
where
  "retry_loop lower srv t text 0 s = (Inl RuntimeError, s)"
| "retry_loop lower srv t text (Suc n) s =
     (case attempt lower srv t text s of
        (Some r, s1) \<Rightarrow> (Inr r, s1)
      | (None, s1) \<Rightarrow> retry_loop lower srv t text n (s1\<lparr>slept := slept s1 + 1\<rparr>))"

definition translate_once ::
  "(pystr \<Rightarrow> pystr) \<Rightarrow> 'w service \<Rightarrow> translator \<Rightarrow> pystr \<Rightarrow> 'w io \<Rightarrow> (error + pystr) \<times> 'w io"
where
  "translate_once lower srv t text s =
     retry_loop lower srv t text (nat (retry t + 1)) (s\<lparr>once_calls := once_calls s @ [text]\<rparr>)"

text \<open>
  \<^verbatim>\<open>"".join(self._translate_once(chunk) for chunk in chunks)\<close>: the chunks are
  translated from left to right, and the first call that raises ends the evaluation.
\<close>

fun translate_chunks ::
  "(pystr \<Rightarrow> pystr) \<Rightarrow> 'w service \<Rightarrow> translator \<Rightarrow> pystr list \<Rightarrow> 'w io \<Rightarrow> (error + pystr) \<times> 'w io"
where
  "translate_chunks lower srv t [] s = (Inr [], s)"
| "translate_chunks lower srv t (chunk # chunks) s =
     (case translate_once lower srv t chunk s of
        (Inl e, s1) \<Rightarrow> (Inl e, s1)
      | (Inr r, s1) \<Rightarrow>
          (case translate_chunks lower srv t chunks s1 of
             (Inl e, s2) \<Rightarrow> (Inl e, s2)
           | (Inr rs, s2) \<Rightarrow> (Inr (r @ rs), s2)))"

text \<open>
  \<^verbatim>\<open>translate_text\<close> returns its result (or the error raised), the client with its
  cache, and the outside state.
\<close>

definition translate_text ::
  "(pystr \<Rightarrow> pystr) \<Rightarrow> 'w service \<Rightarrow> translator \<Rightarrow> pystr \<Rightarrow> 'w io
     \<Rightarrow> (error + pystr) \<times> translator \<times> 'w io"
where
  "translate_text lower srv t text s =
     (if strip text = [] then (Inr text, t, s)
      else
        (case cache t text of
           Some cached \<Rightarrow> (Inr cached, t, s)
         | None \<Rightarrow>
             (case (if int (length text) \<le> max_chars t
                    then translate_once lower srv t text s
                    else translate_chunks lower srv t (split_text text (max_chars t)) s) of
                (Inl e, s1) \<Rightarrow> (Inl e, t, s1)
              | (Inr translated, s1) \<Rightarrow>
                  (Inr translated, t\<lparr>cache := (cache t)(text \<mapsto> translated)\<rparr>, s1))))"

section \<open>The segment extractor\<close>

text \<open>
  The content tree that \<^verbatim>\<open>BeautifulSoup\<close> builds. A \<^verbatim>\<open>Tag\<close> has a name, its
  attributes (a dictionary) and its children. \<^verbatim>\<open>NavigableString\<close> stands for the plain
  strings and the CDATA sections, \<open>Comment\<close> for the other subclasses of
  \<^verbatim>\<open>NavigableString\<close> (comments, processing instructions, declarations):
  \<^verbatim>\<open>isinstance(child, NavigableString)\<close> holds for both, and \<^verbatim>\<open>get_text\<close> reads the
  first kind only. The tree has no node that is neither a string nor a tag, so the branch
  \<^verbatim>\<open>if not isinstance(child, Tag): return\<close> of \<^verbatim>\<open>walk\<close> is never taken.
\<close>

datatype node =
  NavigableString pystr
| Comment pystr
| Tag pystr "pystr \<rightharpoonup> pystr" "node list"

text \<open>
  A segment is a dictionary, \<^verbatim>\<open>{"type": "text", "value": v}\<close> or
  \<^verbatim>\<open>{"type": "img", "src": s}\<close>. \<^verbatim>\<open>merge_text_segments\<close> updates such dictionaries
  in place, so the dictionaries live in a store: a reference is an address, and the store
  gives the dictionary at each address.
\<close>

datatype segment = Text_segment pystr | Img_segment pystr

type_synonym ref = nat

type_synonym store = "ref \<Rightarrow> segment"

text \<open>\<^verbatim>\<open>child.get("src", "")\<close> on the attributes of a tag.\<close>

definition attr_get :: "(pystr \<rightharpoonup> pystr) \<Rightarrow> pystr \<Rightarrow> pystr \<Rightarrow> pystr" where
  "attr_get attrs key dflt = (case attrs key of None \<Rightarrow> dflt | Some v \<Rightarrow> v)"

text \<open>
  The inner function \<^verbatim>\<open>walk\<close> of \<^verbatim>\<open>extract_inline_segments\<close>. Its state is the list
  \<^verbatim>\<open>segments\<close> (references, in order), the store, and the next free address, at which
  the dictionary it creates is allocated.
\<close>

fun walk :: "node \<Rightarrow> ref list \<times> store \<times> ref \<Rightarrow> ref list \<times> store \<times> ref" where
  "walk (NavigableString s) (segments, h, n) =
     (segments @ [n], h(n := Text_segment s), Suc n)"
| "walk (Comment s) (segments, h, n) =
     (segments @ [n], h(n := Text_segment s), Suc n)"
| "walk (Tag name attrs children) (segments, h, n) =
     (if name = lit ''img''
      then (segments @ [n], h(n := Img_segment (attr_get attrs (lit ''src'') [])), Suc n)
      else if name = lit ''br''
      then (segments @ [n], h(n := Text_segment [10]), Suc n)
      else fold (\<lambda>grand st. walk grand st) children (segments, h, n))"

text \<open>
  The loop of \<^verbatim>\<open>merge_text_segments\<close>, with the list \<open>merged\<close> and the store as its
  state. \<^verbatim>\<open>merged.append(seg)\<close> appends the reference, and
  \<^verbatim>\<open>merged[-1]["value"] += seg["value"]\<close> reads both values and then updates the
  dictionary that the last reference of \<open>merged\<close> points to.
\<close>

fun is_text :: "segment \<Rightarrow> bool" where
  "is_text (Text_segment v) = True"
| "is_text (Img_segment src) = False"

fun segment_value :: "segment \<Rightarrow> pystr" where
  "segment_value (Text_segment v) = v"
| "segment_value (Img_segment src) = src"

fun merge_loop :: "ref list \<Rightarrow> ref list \<Rightarrow> store \<Rightarrow> ref list \<times> store" where
  "merge_loop merged [] h = (merged, h)"
| "merge_loop merged (seg # segs) h =
     (if is_text (h seg) then
        (if merged \<noteq> [] \<and> is_text (h (last merged))
         then merge_loop merged segs
                (h(last merged :=
                     Text_segment (segment_value (h (last merged)) @ segment_value (h seg))))
         else merge_loop (merged @ [seg]) segs h)
      else merge_loop (merged @ [seg]) segs h)"

definition merge_text_segments :: "ref list \<Rightarrow> store \<Rightarrow> ref list \<times> store" where
  "merge_text_segments segments h = merge_loop [] segments h"

text \<open>
  \<^verbatim>\<open>extract_inline_segments\<close> starts with an empty list; its result is the list of the
  dictionaries that the merged references point to when it returns. The dictionaries of
  the caller, at the addresses below \<open>n\<close>, are not touched.
\<close>

definition extract_inline_segments_in :: "node \<Rightarrow> store \<Rightarrow> ref \<Rightarrow> segment list" where
  "extract_inline_segments_in tag h n =
     (case walk tag ([], h, n) of
        (segments, h1, n1) \<Rightarrow>
          (case merge_text_segments segments h1 of (merged, h2) \<Rightarrow> map h2 merged))"

definition extract_inline_segments :: "node \<Rightarrow> segment list" where
  "extract_inline_segments tag = extract_inline_segments_in tag (\<lambda>a. Text_segment []) 0"

section \<open>Tables\<close>

text \<open>
  \<^verbatim>\<open>tag.find_all(names)\<close>: the descendants of the tag, in document order, that are
  tags with one of the names.
\<close>

fun descendants :: "node \<Rightarrow> node list" where
  "descendants (NavigableString s) = []"
| "descendants (Comment s) = []"
| "descendants (Tag name attrs children) = concat (map (\<lambda>c. c # descendants c) children)"

definition find_all :: "pystr list \<Rightarrow> node \<Rightarrow> node list" where
  "find_all names n =
     filter (\<lambda>d. case d of Tag name attrs children \<Rightarrow> name \<in> set names | _ \<Rightarrow> False)
       (descendants n)"

text \<open>
  \<^verbatim>\<open>cell.get_text(" ", strip=True)\<close>: the strings below the cell, each stripped, the
  empty ones dropped, joined by one space.
\<close>

definition get_text :: "node \<Rightarrow> pystr" where
  "get_text n =
     str_join [32]
       (filter (\<lambda>s. s \<noteq> [])
          (concat (map (\<lambda>d. case d of NavigableString s \<Rightarrow> [strip s] | _ \<Rightarrow> [])
             (descendants n))))"

text \<open>
  The output document, as far as \<^verbatim>\<open>process_table\<close> writes it: the texts of its
  paragraphs, \<^verbatim>\<open>doc.add_paragraph(line)\<close> appending one. The inner loop over the cells
  of a row has the list \<open>cells\<close> as its state; an error raised by \<^verbatim>\<open>translate_text\<close>
  leaves both loops, and the paragraphs added before it stay in the document.
\<close>

fun translate_cells ::
  "(pystr \<Rightarrow> pystr) \<Rightarrow> 'w service \<Rightarrow> node list \<Rightarrow> pystr list \<Rightarrow> translator \<Rightarrow> 'w io
     \<Rightarrow> (error + pystr list) \<times> translator \<times> 'w io"
where
  "translate_cells lower srv [] cells t s = (Inr cells, t, s)"
| "translate_cells lower srv (cell # rest) cells t s =
     (let cell_text = get_text cell in
      if cell_text \<noteq> [] then
        (case translate_text lower srv t cell_text s of
           (Inl e, t1, s1) \<Rightarrow> (Inl e, t1, s1)
         | (Inr translated, t1, s1) \<Rightarrow>
             translate_cells lower srv rest (cells @ [translated]) t1 s1)
      else translate_cells lower srv rest cells t s)"

fun process_rows ::
  "(pystr \<Rightarrow> pystr) \<Rightarrow> 'w service \<Rightarrow> node list \<Rightarrow> pystr list \<Rightarrow> translator \<Rightarrow> 'w io
     \<Rightarrow> error option \<times> pystr list \<times> translator \<times> 'w io"
where
  "process_rows lower srv [] doc t s = (None, doc, t, s)"
| "process_rows lower srv (row # rows) doc t s =
     (case translate_cells lower srv (find_all [lit ''td'', lit ''th''] row) [] t s of
        (Inl e, t1, s1) \<Rightarrow> (Some e, doc, t1, s1)
      | (Inr cells, t1, s1) \<Rightarrow>
          process_rows lower srv rows
            (if cells \<noteq> [] then doc @ [str_join [9] cells] else doc) t1 s1)"

definition process_table ::
  "(pystr \<Rightarrow> pystr) \<Rightarrow> 'w service \<Rightarrow> node \<Rightarrow> pystr list \<Rightarrow> translator \<Rightarrow> 'w io
     \<Rightarrow> error option \<times> pystr list \<times> translator \<times> 'w io"
where
  "process_table lower srv tag doc t s =
     process_rows lower srv (find_all [lit ''tr''] tag) doc t s"

section \<open>Image paths\<close>

text \<open>\<^verbatim>\<open>s.split("/")\<close>: the pieces between the slashes, at least one piece.\<close>

fun split_slash :: "pystr \<Rightarrow> pystr list" where
  "split_slash [] = [[]]"
| "split_slash (c # cs) =
     (if c = 47 then [] # split_slash cs
      else (case split_slash cs of [] \<Rightarrow> [[c]] | p # ps \<Rightarrow> (c # p) # ps))"

text \<open>
  \<^verbatim>\<open>posixpath.normpath\<close>, \<^verbatim>\<open>posixpath.join\<close> with two arguments and
  \<^verbatim>\<open>posixpath.dirname\<close> of the Python standard library. The loop of \<^verbatim>\<open>normpath\<close> over
  the components has the list \<open>new_comps\<close> as its state.
\<close>

fun normpath_loop :: "nat \<Rightarrow> pystr list \<Rightarrow> pystr list \<Rightarrow> pystr list" where
  "normpath_loop initial_slashes new_comps [] = new_comps"
| "normpath_loop initial_slashes new_comps (component # comps) =
     (if component = [] \<or> component = [46] then normpath_loop initial_slashes new_comps comps
      else if component \<noteq> [46, 46] \<or> (initial_slashes = 0 \<and> new_comps = []) \<or>
              (new_comps \<noteq> [] \<and> last new_comps = [46, 46])
      then normpath_loop initial_slashes (new_comps @ [component]) comps
      else if new_comps \<noteq> [] then normpath_loop initial_slashes (butlast new_comps) comps
      else normpath_loop initial_slashes new_comps comps)"

definition normpath :: "pystr \<Rightarrow> pystr" where
  "normpath path =
     (if path = [] then [46]
      else
        let initial_slashes =
              (if startswith path [47]
               then (if startswith path [47, 47] \<and> \<not> startswith path [47, 47, 47]
                     then 2 else 1)
               else (0::nat));
            comps = normpath_loop initial_slashes [] (split_slash path);
            joined = replicate initial_slashes 47 @ str_join [47] comps
        in if joined = [] then [46] else joined)"

definition posixpath_join :: "pystr \<Rightarrow> pystr \<Rightarrow> pystr" where
  "posixpath_join a b =
     (if startswith b [47] then b
      else if a = [] \<or> last a = 47 then a @ b
      else a @ [47] @ b)"

definition dirname :: "pystr \<Rightarrow> pystr" where
  "dirname p =
     (let head = rev (dropWhile (\<lambda>c. c \<noteq> 47) (rev p)) in
      if head \<noteq> [] \<and> head \<noteq> replicate (length head) 47
      then rev (dropWhile (\<lambda>c. c = 47) (rev head))
      else head)"

text \<open>
  \<^verbatim>\<open>normalize_epub_path\<close>; \<^verbatim>\<open>lstrip("./")\<close> removes every leading character that is
  a dot or a slash.
\<close>

definition normalize_epub_path :: "pystr \<Rightarrow> pystr" where
  "normalize_epub_path path = dropWhile (\<lambda>c. c = 46 \<or> c = 47) (normpath path)"

text \<open>
  An image item of the book: \<^verbatim>\<open>item.get_name()\<close> and \<^verbatim>\<open>item.get_content()\<close>.
  \<^verbatim>\<open>build_image_map\<close> writes one file per item and returns the mapping; the loop has
  the mapping and the files written so far (path and content, in order) as its state.
  \<^verbatim>\<open>os.path.join\<close> is \<^verbatim>\<open>posixpath.join\<close>. For an item whose normalized name is empty
  the path is the temporary directory itself, with a slash at its end, and
  \<^verbatim>\<open>open(out_path, "wb")\<close> raises \<^verbatim>\<open>IsADirectoryError\<close>.
\<close>

record image_item =
  get_name :: pystr
  get_content :: "nat list"

datatype os_error = IsADirectoryError

definition replace_slash :: "pystr \<Rightarrow> pystr" where
  "replace_slash name = concat (map (\<lambda>c. if c = 47 then [95, 95] else [c]) name)"

fun build_image_map_loop ::
  "pystr \<Rightarrow> image_item list \<Rightarrow> (pystr \<rightharpoonup> pystr) \<Rightarrow> (pystr \<times> nat list) list
     \<Rightarrow> os_error + (pystr \<rightharpoonup> pystr) \<times> (pystr \<times> nat list) list"
where
  "build_image_map_loop temp_dir [] mapping files = Inr (mapping, files)"
| "build_image_map_loop temp_dir (item # items) mapping files =
     (let name = normalize_epub_path (get_name item);
          safe_name = replace_slash name;
          out_path = posixpath_join temp_dir safe_name
      in if safe_name = [] then Inl IsADirectoryError
         else build_image_map_loop temp_dir items
                (mapping(name \<mapsto> out_path)) (files @ [(out_path, get_content item)]))"

definition build_image_map ::
  "image_item list \<Rightarrow> pystr \<Rightarrow> os_error + (pystr \<rightharpoonup> pystr) \<times> (pystr \<times> nat list) list"
where
  "build_image_map book temp_dir = build_image_map_loop temp_dir book Map.empty []"

definition resolve_image_src :: "pystr \<Rightarrow> pystr \<Rightarrow> pystr option" where
  "resolve_image_src src doc_path =
     (if src = [] \<or> startswith src (lit ''data:'') then None
      else
        let base = dirname doc_path;
            resolved = normalize_epub_path (posixpath_join base src)
        in Some resolved)"

text \<open>
  The image branch of \<^verbatim>\<open>process_block\<close> (lines 251 to 257): the path of the picture
  that is added to the paragraph, or \<open>None\<close> when the loop continues without one.
\<close>

definition find_image :: "(pystr \<rightharpoonup> pystr) \<Rightarrow> pystr \<Rightarrow> pystr \<Rightarrow> pystr option" where
  "find_image image_map seg_src doc_path =
     (case resolve_image_src seg_src doc_path of
        None \<Rightarrow> None
      | Some src \<Rightarrow>
          if src = [] then None
          else
            (case image_map src of
               None \<Rightarrow> None
             | Some img_path \<Rightarrow> if img_path = [] then None else Some img_path))"

section \<open>The cleaning protocol in words\<close>

text \<open>
  The protocol as the claim words it, to be compared with \<open>cleaned_or_text\<close>: (1) the
  content between the delimiter pair, used verbatim, when it is found and is not empty
  after trimming; (2) otherwise the lines of the raw response without the blank lines and
  without the lines whose lowercased content starts with a marker, joined; (3) the
  original text when the result is empty. The English markers are the six the claim
  names; the Chinese ones, which it does not name, are those of the code.
\<close>

definition claimed_markers :: "pystr list" where
  "claimed_markers =
     [[24605, 32771], [25512, 29702], [20998, 26512],
      lit ''thinking'', lit ''analysis'', lit ''reasoning'',
      lit ''original'', lit ''source'', lit ''translation'']"

definition claimed_protocol :: "(pystr \<Rightarrow> pystr) \<Rightarrow> pystr \<Rightarrow> pystr \<Rightarrow> pystr" where
  "claimed_protocol lower text raw =
     (let kept = filter (\<lambda>l. \<not> list_ex (\<lambda>m. startswith (lower l) m) claimed_markers)
                   (filter (\<lambda>l. l \<noteq> []) (map strip (splitlines raw)));
          cleaned =
            (case tag_search raw of
               None \<Rightarrow> str_join [10] kept
             | Some content \<Rightarrow> if strip content \<noteq> [] then content else str_join [10] kept)
      in if cleaned = [] then text else cleaned)"

text \<open>
  The protocol as amended: the content between the delimiters is used trimmed, and the
  markers are the nine below, \<open>thought\<close> among them and \<open>thinking\<close> not.
\<close>

definition protocol_markers :: "pystr list" where
  "protocol_markers =
     [[24605, 32771], [25512, 29702], [20998, 26512],
      lit ''reasoning'', lit ''analysis'', lit ''thought'',
      lit ''original'', lit ''source'', lit ''translation'']"

definition marker_line :: "(pystr \<Rightarrow> pystr) \<Rightarrow> pystr \<Rightarrow> bool" where
  "marker_line lower l = list_ex (\<lambda>m. startswith (lower l) m) protocol_markers"

definition cleaning_protocol :: "(pystr \<Rightarrow> pystr) \<Rightarrow> pystr \<Rightarrow> pystr \<Rightarrow> pystr" where
  "cleaning_protocol lower text raw =
     (let kept = filter (\<lambda>l. \<not> marker_line lower l)
                   (filter (\<lambda>l. l \<noteq> []) (map strip (splitlines raw)));
          cleaned =
            (case tag_search raw of
               None \<Rightarrow> str_join [10] kept
             | Some content \<Rightarrow>
                 if strip content \<noteq> [] then strip content else str_join [10] kept)
      in if cleaned = [] then text else cleaned)"

section \<open>Observations on the state outside the client\<close>

text \<open>
  Every attempt of \<^verbatim>\<open>_translate_once\<close> starts with one request to
  \<^verbatim>\<open>/api/generate\<close>, so the attempts made are the generate requests posted.
\<close>

fun is_generate :: "request \<Rightarrow> bool" where
  "is_generate (Post u (Generate_payload m p)) = True"
| "is_generate (Post u (Chat_payload m sy us)) = False"

definition attempts :: "'w io \<Rightarrow> nat" where
  "attempts s = length (filter is_generate (posted s))"

section \<open>The sentences of a text\<close>

text \<open>
  The sentences of a text, in their order: the parts between the sentence boundaries
  that are not empty.
\<close>

definition sentences :: "pystr \<Rightarrow> pystr list" where
  "sentences s = filter (\<lambda>p. p \<noteq> []) (sentence_split s)"

text \<open>
  Two properties of a list of parts, used for the loop of \<^verbatim>\<open>split_text\<close>: every part
  but the last is not empty and ends with a character that is not whitespace; every part
  that is not empty starts with a character that is not whitespace.
\<close>

fun tails_ok :: "pystr list \<Rightarrow> bool" where
  "tails_ok [] = True"
| "tails_ok [p] = True"
| "tails_ok (p # q # ps) = (p \<noteq> [] \<and> \<not> is_space (last p) \<and> tails_ok (q # ps))"

definition heads_ok :: "pystr list \<Rightarrow> bool" where
  "heads_ok ps = list_all (\<lambda>p. p = [] \<or> \<not> is_space (hd p)) ps"

text \<open>
  What a joined list contributes in front of and behind a further element, and the buffer
  of \<^verbatim>\<open>split_text\<close> as the list of the chunks it holds.
\<close>

definition sep_before :: "pystr list \<Rightarrow> pystr" where
  "sep_before xs = (if xs = [] then [] else str_join [32] xs @ [32])"

definition sep_after :: "pystr list \<Rightarrow> pystr" where
  "sep_after xs = (if xs = [] then [] else [32] @ str_join [32] xs)"

definition held :: "pystr \<Rightarrow> pystr list" where
  "held buf = (if buf = [] then [] else [buf])"

section \<open>The segments of a subtree in words\<close>

text \<open>
  The segments before merging as the claim words them: a text node gives a text segment
  with its string, an image node an image segment with its source path, a line-break node
  the text segment of a line feed, and every other node the segments of its children in
  order and none of its own. A comment is not a text node and has no children.
\<close>

fun claimed_segments :: "node \<Rightarrow> segment list" where
  "claimed_segments (NavigableString s) = [Text_segment s]"
| "claimed_segments (Comment s) = []"
| "claimed_segments (Tag name attrs children) =
     (if name = lit ''img'' then [Img_segment (attr_get attrs (lit ''src'') [])]
      else if name = lit ''br'' then [Text_segment [10]]
      else concat (map claimed_segments children))"

text \<open>
  The segments before merging as amended: every string node, a comment too, gives a text
  segment with its string.
\<close>

fun document_segments :: "node \<Rightarrow> segment list" where
  "document_segments (NavigableString s) = [Text_segment s]"
| "document_segments (Comment s) = [Text_segment s]"
| "document_segments (Tag name attrs children) =
     (if name = lit ''img'' then [Img_segment (attr_get attrs (lit ''src'') [])]
      else if name = lit ''br'' then [Text_segment [10]]
      else concat (map document_segments children))"

text \<open>
  Merging in words: an image segment stays where it is, and a text segment is joined with
  the run of text segments that follows it directly, its string first.
\<close>

fun merged_runs :: "segment list \<Rightarrow> segment list" where
  "merged_runs [] = []"
| "merged_runs (Img_segment src # xs) = Img_segment src # merged_runs xs"
| "merged_runs (Text_segment a # xs) =
     (case merged_runs xs of
        Text_segment b # ys \<Rightarrow> Text_segment (a @ b) # ys
      | ys \<Rightarrow> Text_segment a # ys)"

section \<open>The lines of a table in words\<close>

text \<open>
  Translating the texts of a list one after the other, the client and the state outside
  it passed on; the first error ends it.
\<close>

fun translate_all ::
  "(pystr \<Rightarrow> pystr) \<Rightarrow> 'w service \<Rightarrow> pystr list \<Rightarrow> translator \<Rightarrow> 'w io
     \<Rightarrow> (error + pystr list) \<times> translator \<times> 'w io"
where
  "translate_all lower srv [] t s = (Inr [], t, s)"
| "translate_all lower srv (x # xs) t s =
     (case translate_text lower srv t x s of
        (Inl e, t1, s1) \<Rightarrow> (Inl e, t1, s1)
      | (Inr v, t1, s1) \<Rightarrow>
          (case translate_all lower srv xs t1 s1 of
             (Inl e, t2, s2) \<Rightarrow> (Inl e, t2, s2)
           | (Inr vs, t2, s2) \<Rightarrow> (Inr (v # vs), t2, s2)))"

text \<open>The cell texts of a row, in order.\<close>

definition cell_texts :: "node \<Rightarrow> pystr list" where
  "cell_texts row = map get_text (find_all [lit ''td'', lit ''th''] row)"

text \<open>
  The lines of the rows as the claim words them: the cell texts of a row are each
  translated and joined with a tab into the one line of the row, and a row with no
  non-empty cell gives no line. The result is the error that ended the translation, if
  one did, and the lines completed.
\<close>

fun claimed_rows ::
  "(pystr \<Rightarrow> pystr) \<Rightarrow> 'w service \<Rightarrow> node list \<Rightarrow> translator \<Rightarrow> 'w io
     \<Rightarrow> error option \<times> pystr list \<times> translator \<times> 'w io"
where
  "claimed_rows lower srv [] t s = (None, [], t, s)"
| "claimed_rows lower srv (row # rows) t s =
     (case translate_all lower srv (cell_texts row) t s of
        (Inl e, t1, s1) \<Rightarrow> (Some e, [], t1, s1)
      | (Inr vs, t1, s1) \<Rightarrow>
          (case claimed_rows lower srv rows t1 s1 of
             (r, ls, t2, s2) \<Rightarrow>
               (r, (if list_ex (\<lambda>c. c \<noteq> []) (cell_texts row) then [str_join [9] vs] else [])
                   @ ls, t2, s2)))"

text \<open>
  The lines of the rows as amended: only the cell texts of a row that are not empty are
  translated and joined.
\<close>

fun table_rows ::
  "(pystr \<Rightarrow> pystr) \<Rightarrow> 'w service \<Rightarrow> node list \<Rightarrow> translator \<Rightarrow> 'w io
     \<Rightarrow> error option \<times> pystr list \<times> translator \<times> 'w io"
where
  "table_rows lower srv [] t s = (None, [], t, s)"
| "table_rows lower srv (row # rows) t s =
     (case translate_all lower srv (filter (\<lambda>c. c \<noteq> []) (cell_texts row)) t s of
        (Inl e, t1, s1) \<Rightarrow> (Some e, [], t1, s1)
      | (Inr vs, t1, s1) \<Rightarrow>
          (case table_rows lower srv rows t1 s1 of
             (r, ls, t2, s2) \<Rightarrow>
               (r, (if list_ex (\<lambda>c. c \<noteq> []) (cell_texts row) then [str_join [9] vs] else [])
                   @ ls, t2, s2)))"

section \<open>Concrete clients and services for the examples\<close>

text \<open>
  A client as \<^verbatim>\<open>main\<close> builds it by default, a smaller one whose chunks hold five
  characters, the state before the first request, a service whose every call raises,
  and a service that answers every request with status 200 and the source text,
  marked with U+8BD1 in front, between the delimiters.
\<close>

definition default_client :: translator where
  "default_client =
     OllamaTranslator (lit ''qwen3:8b'') (lit ''http://localhost:11434'') 1500 2"

definition small_client :: translator where
  "small_client = OllamaTranslator (lit ''qwen3:8b'') (lit ''http://localhost:11434'') 5 0"

definition start :: "unit io" where
  "start = \<lparr>world = (), posted = [], slept = 0, once_calls = []\<rparr>"

definition failing_service :: "unit service" where
  "failing_service w req = (Raised, w)"

definition marking_service :: "unit service" where
  "marking_service w req =
     (Returned
        \<lparr>status_code = 200,
         json = Some
           \<lparr>response_field =
              Some (open_tag @ [35793] @
                    (case req of
                       Post u (Generate_payload m p) \<Rightarrow> drop (length instruction + 2) p
                     | Post u (Chat_payload m sy us) \<Rightarrow> us) @ close_tag),
            message_content = None\<rparr>\<rparr>, w)"

section \<open>Facts about the string functions\<close>

lemma lstrip_id: "s = [] \<or> \<not> is_space (hd s) \<Longrightarrow> lstrip s = s"
  by (cases s) (auto simp: lstrip_def)

lemma rstrip_id: "s = [] \<or> \<not> is_space (last s) \<Longrightarrow> rstrip s = s"
  by (cases s rule: rev_cases) (auto simp: rstrip_def)

lemma strip_id: "s = [] \<or> (\<not> is_space (hd s) \<and> \<not> is_space (last s)) \<Longrightarrow> strip s = s"
  by (auto simp: strip_def lstrip_id rstrip_id)

lemma hd_lstrip: "lstrip s \<noteq> [] \<Longrightarrow> \<not> is_space (hd (lstrip s))"
  unfolding lstrip_def by (rule hd_dropWhile)

lemma last_rstrip: "rstrip s \<noteq> [] \<Longrightarrow> \<not> is_space (last (rstrip s))"
  unfolding rstrip_def by (simp add: last_rev hd_dropWhile)

lemma hd_rstrip: "rstrip s \<noteq> [] \<Longrightarrow> hd (rstrip s) = hd s"
proof (induction s rule: rev_induct)
  case Nil
  then show ?case by (simp add: rstrip_def)
next
  case (snoc x xs)
  then show ?case by (cases xs) (auto simp: rstrip_def split: if_splits)
qed

lemma rstrip_nonempty: "rstrip s \<noteq> [] \<Longrightarrow> s \<noteq> []"
  by (auto simp: rstrip_def)

lemma hd_strip: "strip s \<noteq> [] \<Longrightarrow> \<not> is_space (hd (strip s))"
  unfolding strip_def
  using hd_rstrip [of "lstrip s"] hd_lstrip [of s] rstrip_nonempty [of "lstrip s"]
  by auto

lemma last_strip: "strip s \<noteq> [] \<Longrightarrow> \<not> is_space (last (strip s))"
  unfolding strip_def by (rule last_rstrip)

lemma strip_strip: "strip (strip s) = strip s"
  using strip_id [of "strip s"] hd_strip [of s] last_strip [of s] by blast

lemma hd_str_join: "x \<noteq> [] \<Longrightarrow> hd (str_join sep (x # xs)) = hd x"
  by (cases xs) auto

lemma str_join_nonempty: "x \<noteq> [] \<Longrightarrow> str_join sep (x # xs) \<noteq> []"
  by (cases xs) auto

lemma last_str_join:
  "\<forall>x\<in>set xs. x \<noteq> [] \<Longrightarrow> xs \<noteq> [] \<Longrightarrow> last (str_join sep xs) = last (last xs)"
  by (induction sep xs rule: str_join.induct) (auto simp: str_join_nonempty)

lemmas string_evals =
  lit_def strip_def lstrip_def rstrip_def is_space_def startswith_def splitlines_def
  is_linebreak_def ascii_lower_def Let_def

section \<open>The response cleaning\<close>

lemma cleaned_lines_stripped:
  "l \<in> set (cleaned_lines lower ls) \<Longrightarrow>
     l \<noteq> [] \<and> \<not> is_space (hd l) \<and> \<not> is_space (last l)"
  by (induction ls) (auto simp: Let_def hd_strip last_strip split: if_splits)

lemma strip_join_cleaned:
  "strip (str_join [10] (cleaned_lines lower ls)) = str_join [10] (cleaned_lines lower ls)"
proof (cases "cleaned_lines lower ls")
  case Nil
  then show ?thesis by (simp add: strip_id)
next
  case (Cons x xs)
  have all: "\<forall>l\<in>set (x # xs). l \<noteq> [] \<and> \<not> is_space (hd l) \<and> \<not> is_space (last l)"
    using cleaned_lines_stripped [of _ lower ls] Cons by metis
  have "\<not> is_space (hd (str_join [10] (x # xs)))"
    using all by (simp add: hd_str_join)
  moreover have "\<not> is_space (last (str_join [10] (x # xs)))"
    using all last_str_join [of "x # xs" "[10]"] by (metis last_in_set list.distinct(1))
  ultimately show ?thesis using Cons by (simp add: strip_id)
qed

lemma protocol_markers_code: "protocol_markers = INFERENCE_PREFIXES"
  by (simp add: protocol_markers_def INFERENCE_PREFIXES_def)

lemma cleaned_lines_filter:
  "cleaned_lines lower ls =
     filter (\<lambda>l. \<not> marker_line lower l) (filter (\<lambda>l. l \<noteq> []) (map strip ls))"
  by (induction ls) (simp_all add: Let_def marker_line_def protocol_markers_code)

lemma splitlines_Nil: "splitlines [] = []"
  by (simp add: splitlines_def)

lemma tag_search_Nil: "tag_search [] = None"
  by (simp add: tag_search_def open_tag_def lit_def)

lemma extract_no_final_strip:
  "extract_translation_only lower raw =
     (if raw = [] then []
      else
        let candidate = (case tag_search raw of None \<Rightarrow> [] | Some g \<Rightarrow> strip g) in
        if candidate \<noteq> [] then candidate
        else str_join [10] (cleaned_lines lower (splitlines raw)))"
  by (simp add: extract_translation_only_def strip_join_cleaned Let_def)

lemma cleaned_or_text_protocol:
  "cleaned_or_text lower text raw = cleaning_protocol lower text raw"
proof (cases "raw = []")
  case True
  then show ?thesis
    by (simp add: cleaned_or_text_def cleaning_protocol_def extract_no_final_strip
        splitlines_Nil tag_search_Nil)
next
  case False
  show ?thesis
  proof (cases "tag_search raw")
    case None
    with False show ?thesis
      by (simp add: cleaned_or_text_def cleaning_protocol_def extract_no_final_strip
          Let_def cleaned_lines_filter)
  next
    case (Some content)
    with False show ?thesis
      by (simp add: cleaned_or_text_def cleaning_protocol_def extract_no_final_strip
          Let_def cleaned_lines_filter)
  qed
qed

lemma cleaned_or_text_nonempty: "text \<noteq> [] \<Longrightarrow> cleaned_or_text lower text raw \<noteq> []"
  by (simp add: cleaned_or_text_def Let_def)

lemmas cleaning_evals =
  extract_translation_only_def cleaned_or_text_def tag_search_def open_tag_def close_tag_def
  INFERENCE_PREFIXES_def ci_char_def

lemma extract_tagged_example:
  "extract_translation_only ascii_lower
     ([24605, 32771] @ lit '': foo\<newline><translation>'' @ [20320, 22909] @
      lit ''</translation>'') = [20320, 22909]"
  by (simp add: cleaning_evals string_evals)

lemma extract_untagged_example:
  "extract_translation_only ascii_lower
     (str_join [10] [lit ''Reasoning: blah'', [20320, 22909, 19990, 30028]]) =
     [20320, 22909, 19990, 30028]"
  by (simp add: cleaning_evals string_evals)

text \<open>
  Claim C1 as stated fails at three inputs. The raw response \<^verbatim>\<open>"Thinking: hm"\<close> for the
  text \<^verbatim>\<open>"Hi"\<close>: the lowercased line starts with \<open>thinking\<close>, which the claim names as
  a marker, so the protocol of the claim discards the line and returns the text; the code,
  whose markers have \<open>thought\<close> and not \<open>thinking\<close>, returns the line. The raw response
  \<^verbatim>\<open>"<translation> x </translation>"\<close>: the content between the delimiters is
  \<^verbatim>\<open>" x "\<close>, which the claim uses verbatim; the code returns it trimmed. The empty text
  with the empty raw response: the result is the empty string.
\<close>

theorem response_cleaning_claim_counterexample:
  "startswith (ascii_lower (lit ''Thinking: hm'')) (lit ''thinking'') \<and>
   claimed_protocol ascii_lower (lit ''Hi'') (lit ''Thinking: hm'') = lit ''Hi'' \<and>
   cleaned_or_text ascii_lower (lit ''Hi'') (lit ''Thinking: hm'') = lit ''Thinking: hm'' \<and>
   claimed_protocol ascii_lower (lit ''Hi'') (lit ''<translation> x </translation>'') =
     lit '' x '' \<and>
   cleaned_or_text ascii_lower (lit ''Hi'') (lit ''<translation> x </translation>'') =
     lit ''x'' \<and>
   cleaned_or_text ascii_lower [] [] = []"
  by (simp add: cleaning_evals string_evals claimed_protocol_def claimed_markers_def)

text \<open>
  Claim C1, amended. The cleaning applied to every raw response (\<open>cleaned_or_text\<close>:
  \<^verbatim>\<open>extract_translation_only\<close> and then \<^verbatim>\<open>cleaned or text\<close>, lines 95 and 96) is the
  three-stage protocol with the content between the first \<^verbatim>\<open><translation>\<close> and the
  next \<^verbatim>\<open></translation>\<close> used trimmed (when it is not empty after trimming), with the
  nine markers of \<open>protocol_markers\<close> (U+601D U+8003, U+63A8 U+7406, U+5206 U+6790,
  reasoning, analysis, thought, original, source, translation) deciding which trimmed,
  non-blank lines are discarded before the rest is joined by line feeds, and with the
  input text returned when the result is empty. For an input text that is not empty the
  result is never empty. The raw response
  U+601D U+8003 \<^verbatim>\<open>": foo\n<translation>"\<close> U+4F60 U+597D \<^verbatim>\<open>"</translation>"\<close> gives
  U+4F60 U+597D, and the lines \<^verbatim>\<open>"Reasoning: blah"\<close> and U+4F60 U+597D U+4E16 U+754C
  give the second line.
\<close>

theorem response_cleaning_is_protocol:
  "cleaned_or_text lower text raw = cleaning_protocol lower text raw \<and>
   (text \<noteq> [] \<longrightarrow> cleaned_or_text lower text raw \<noteq> []) \<and>
   extract_translation_only ascii_lower
     ([24605, 32771] @ lit '': foo\<newline><translation>'' @ [20320, 22909] @
      lit ''</translation>'') = [20320, 22909] \<and>
   extract_translation_only ascii_lower
     (str_join [10] [lit ''Reasoning: blah'', [20320, 22909, 19990, 30028]]) =
     [20320, 22909, 19990, 30028]"
  using cleaned_or_text_protocol cleaned_or_text_nonempty extract_tagged_example
    extract_untagged_example by blast

theorem response_cleaning_is_protocol_witness:
  "lit ''Hi'' \<noteq> [] \<and>
   cleaned_or_text ascii_lower (lit ''Hi'') (lit ''Thought: hm'') \<noteq> [] \<and>
   cleaned_or_text ascii_lower (lit ''Hi'') (lit ''Thought: hm'') =
     cleaning_protocol ascii_lower (lit ''Hi'') (lit ''Thought: hm'')"
proof -
  have nonempty: "lit ''Hi'' \<noteq> []"
    by (simp add: lit_def)
  from response_cleaning_is_protocol [of ascii_lower "lit ''Hi''" "lit ''Thought: hm''"] nonempty
  show ?thesis by blast
qed

section \<open>The translation client\<close>

lemma rstrip_empty_iff: "rstrip s = [] \<longleftrightarrow> (\<forall>c\<in>set s. is_space c)"
  by (simp add: rstrip_def dropWhile_eq_Nil_conv)

lemma lstrip_empty_iff: "lstrip s = [] \<longleftrightarrow> (\<forall>c\<in>set s. is_space c)"
  by (simp add: lstrip_def dropWhile_eq_Nil_conv)

lemma set_lstrip: "set (lstrip s) \<subseteq> set s"
  by (simp add: lstrip_def set_dropWhileD subsetI)

lemma strip_empty_iff: "strip s = [] \<longleftrightarrow> (\<forall>c\<in>set s. is_space c)"
proof
  assume "strip s = []"
  then have all: "\<forall>c\<in>set (lstrip s). is_space c"
    by (simp add: strip_def rstrip_empty_iff)
  have "lstrip s = []"
  proof (rule ccontr)
    assume "lstrip s \<noteq> []"
    then have "\<not> is_space (hd (lstrip s))" "hd (lstrip s) \<in> set (lstrip s)"
      by (simp_all add: hd_lstrip)
    with all show False by blast
  qed
  then show "\<forall>c\<in>set s. is_space c" by (simp add: lstrip_empty_iff)
next
  assume "\<forall>c\<in>set s. is_space c"
  then have "lstrip s = []" by (simp add: lstrip_empty_iff)
  then show "strip s = []" by (simp add: strip_def rstrip_def)
qed

lemma post_effects:
  "post srv req s = (r, s') \<Longrightarrow>
     slept s' = slept s \<and> once_calls s' = once_calls s \<and> posted s' = posted s @ [req]"
  by (auto simp: post_def split: prod.splits)

lemma attempt_effects:
  assumes "attempt lower srv t text s = (r, s')"
  shows "slept s' = slept s \<and> once_calls s' = once_calls s \<and> attempts s' = Suc (attempts s)"
proof -
  let ?g = "Post (url t @ lit ''/api/generate'')
              (Generate_payload (model t) (instruction @ [10, 10] @ text))"
  let ?c = "Post (url t @ lit ''/api/chat'') (Chat_payload (model t) instruction text)"
  obtain r1 s1 where p1: "post srv ?g s = (r1, s1)" by (cases "post srv ?g s")
  have e1: "slept s1 = slept s" "once_calls s1 = once_calls s" "attempts s1 = Suc (attempts s)"
    using post_effects [OF p1] by (simp_all add: attempts_def)
  obtain r2 s2 where p2: "post srv ?c s1 = (r2, s2)" by (cases "post srv ?c s1")
  have e2: "slept s2 = slept s1" "once_calls s2 = once_calls s1" "attempts s2 = attempts s1"
    using post_effects [OF p2] by (simp_all add: attempts_def)
  have "s' = s1 \<or> s' = s2"
    using assms p1 p2
    by (auto simp: attempt_def Let_def split: post_result.splits if_splits option.splits)
  then show ?thesis using e1 e2 by auto
qed

lemma attempts_update [simp]:
  "attempts (s\<lparr>slept := n\<rparr>) = attempts s" "attempts (s\<lparr>once_calls := cs\<rparr>) = attempts s"
  by (simp_all add: attempts_def)

lemma retry_loop_error:
  "retry_loop lower srv t text n s = (Inl e, s') \<Longrightarrow>
     slept s' = slept s + n \<and> attempts s' = attempts s + n \<and> once_calls s' = once_calls s"
proof (induction n arbitrary: s)
  case 0
  then show ?case by simp
next
  case (Suc n)
  obtain r s1 where a: "attempt lower srv t text s = (r, s1)"
    by (cases "attempt lower srv t text s")
  with Suc.prems have r: "r = None"
    and rest: "retry_loop lower srv t text n (s1\<lparr>slept := slept s1 + 1\<rparr>) = (Inl e, s')"
    by (auto split: option.splits)
  from Suc.IH [OF rest] attempt_effects [OF a] show ?case by simp
qed

lemma retry_loop_value:
  "retry_loop lower srv t text n s = (Inr r, s') \<Longrightarrow>
     \<exists>k<n. slept s' = slept s + k \<and> attempts s' = attempts s + Suc k \<and>
       once_calls s' = once_calls s"
proof (induction n arbitrary: s)
  case 0
  then show ?case by simp
next
  case (Suc n)
  obtain r1 s1 where a: "attempt lower srv t text s = (r1, s1)"
    by (cases "attempt lower srv t text s")
  show ?case
  proof (cases r1)
    case None
    with Suc.prems a
    have rest: "retry_loop lower srv t text n (s1\<lparr>slept := slept s1 + 1\<rparr>) = (Inr r, s')"
      by simp
    from Suc.IH [OF rest] obtain k where "k < n"
      "slept s' = slept s1 + 1 + k" "attempts s' = attempts s1 + Suc k"
      "once_calls s' = once_calls s1"
      by auto
    with attempt_effects [OF a] have "Suc k < Suc n \<and> slept s' = slept s + Suc k \<and>
      attempts s' = attempts s + Suc (Suc k) \<and> once_calls s' = once_calls s"
      by simp
    then show ?thesis by blast
  next
    case (Some v)
    with Suc.prems a have "s' = s1" by simp
    with attempt_effects [OF a] show ?thesis by auto
  qed
qed


lemma translate_once_error:
  "translate_once lower srv t text s = (Inl e, s') \<Longrightarrow>
     slept s' = slept s + nat (retry t + 1) \<and> attempts s' = attempts s + nat (retry t + 1) \<and>
     once_calls s' = once_calls s @ [text]"
  unfolding translate_once_def by (drule retry_loop_error) simp

lemma translate_once_value:
  "translate_once lower srv t text s = (Inr r, s') \<Longrightarrow>
     \<exists>k<nat (retry t + 1). slept s' = slept s + k \<and> attempts s' = attempts s + Suc k \<and>
       once_calls s' = once_calls s @ [text]"
  unfolding translate_once_def by (drule retry_loop_value) simp

lemma translate_text_error_keeps_client:
  "translate_text lower srv t text s = (Inl e, t', s') \<Longrightarrow> t' = t"
  by (auto simp: translate_text_def split: if_splits option.splits prod.splits sum.splits)

lemma retry_loop_unfold:
  "0 < n \<Longrightarrow>
     retry_loop lower srv t text n s =
       (case attempt lower srv t text s of
          (Some r, s1) \<Rightarrow> (Inr r, s1)
        | (None, s1) \<Rightarrow> retry_loop lower srv t text (n - 1) (s1\<lparr>slept := slept s1 + 1\<rparr>))"
  by (cases n) (auto split: prod.splits option.splits)

lemma drop_instruction: "drop (length instruction + 2) (instruction @ [10, 10] @ text) = text"
  by simp

lemmas client_evals =
  translate_text_def translate_once_def attempt_def post_def py_or_def raises_for_status_def
  OllamaTranslator_def default_client_def small_client_def start_def failing_service_def
  marking_service_def retry_loop_unfold

lemma translate_once_calls:
  "translate_once lower srv t text s = (res, s') \<Longrightarrow> once_calls s' = once_calls s @ [text]"
  by (cases res) (auto dest: translate_once_error translate_once_value)

lemma translate_chunks_value:
  "translate_chunks lower srv t chunks s = (Inr v, s') \<Longrightarrow>
     (\<exists>rs. list_all2 (\<lambda>chunk r. \<exists>s1 s2. translate_once lower srv t chunk s1 = (Inr r, s2))
            chunks rs \<and> v = concat rs) \<and>
     once_calls s' = once_calls s @ chunks"
proof (induction chunks arbitrary: s v s')
  case Nil
  then show ?case by simp
next
  case (Cons chunk chunks)
  obtain res s1 where first: "translate_once lower srv t chunk s = (res, s1)"
    by (cases "translate_once lower srv t chunk s")
  with Cons.prems obtain r where res: "res = Inr r"
    by (cases res) auto
  obtain res2 s2 where rest: "translate_chunks lower srv t chunks s1 = (res2, s2)"
    by (cases "translate_chunks lower srv t chunks s1")
  with Cons.prems first res obtain rs0 where res2: "res2 = Inr rs0" and v: "v = r @ rs0"
    and s': "s' = s2"
    by (cases res2) auto
  from Cons.IH [OF rest [unfolded res2]] obtain rs where
    rs: "list_all2 (\<lambda>chunk r. \<exists>s1 s2. translate_once lower srv t chunk s1 = (Inr r, s2)) chunks rs"
    "rs0 = concat rs" and calls: "once_calls s2 = once_calls s1 @ chunks"
    by blast
  have "list_all2 (\<lambda>chunk r. \<exists>s1 s2. translate_once lower srv t chunk s1 = (Inr r, s2))
          (chunk # chunks) (r # rs)"
    using rs(1) first res by auto
  moreover have "v = concat (r # rs)"
    using v rs(2) by simp
  moreover have "once_calls s' = once_calls s @ chunk # chunks"
    using calls s' translate_once_calls [OF first] by simp
  ultimately show ?case by blast
qed

lemma translate_text_short:
  assumes "strip text \<noteq> []" "cache t text = None" "int (length text) \<le> max_chars t"
  shows "translate_text lower srv t text s =
           (case translate_once lower srv t text s of
              (Inl e, s1) \<Rightarrow> (Inl e, t, s1)
            | (Inr r, s1) \<Rightarrow> (Inr r, t\<lparr>cache := (cache t)(text \<mapsto> r)\<rparr>, s1))"
  using assms by (simp add: translate_text_def)

lemma translate_text_short_calls:
  assumes "strip text \<noteq> []" "cache t text = None" "int (length text) \<le> max_chars t"
  shows "once_calls (snd (snd (translate_text lower srv t text s))) = once_calls s @ [text]"
proof -
  obtain res s1 where once: "translate_once lower srv t text s = (res, s1)"
    by (cases "translate_once lower srv t text s")
  have "snd (snd (translate_text lower srv t text s)) = s1"
    using once by (cases res) (simp_all add: translate_text_short [OF assms])
  with translate_once_calls [OF once] show ?thesis by simp
qed

lemma translate_text_long:
  assumes "strip text \<noteq> []" "cache t text = None" "\<not> int (length text) \<le> max_chars t"
    and "translate_text lower srv t text s = (Inr v, t', s')"
  shows "(\<exists>rs. list_all2 (\<lambda>chunk r. \<exists>s1 s2. translate_once lower srv t chunk s1 = (Inr r, s2))
            (split_text text (max_chars t)) rs \<and> v = concat rs) \<and>
         once_calls s' = once_calls s @ split_text text (max_chars t) \<and>
         t' = t\<lparr>cache := (cache t)(text \<mapsto> v)\<rparr>"
proof -
  obtain res s1 where ch:
    "translate_chunks lower srv t (split_text text (max_chars t)) s = (res, s1)"
    by (cases "translate_chunks lower srv t (split_text text (max_chars t)) s")
  with assms have "res = Inr v" "s' = s1" "t' = t\<lparr>cache := (cache t)(text \<mapsto> v)\<rparr>"
    by (cases res; simp add: translate_text_def)+
  with translate_chunks_value [of lower srv t _ s v s1] ch show ?thesis by simp
qed

text \<open>
  Claim C9. A text that is empty or made of whitespace only is returned unchanged by
  \<^verbatim>\<open>translate_text\<close>: no request is posted, no call of \<^verbatim>\<open>_translate_once\<close> is made,
  and the client (its cache) and the outside state are what they were; the result does
  not depend on the cache.
\<close>

theorem whitespace_text_returned_unchanged:
  "\<forall>c\<in>set text. is_space c \<Longrightarrow> translate_text lower srv t text s = (Inr text, t, s)"
  by (simp add: translate_text_def strip_empty_iff)

theorem whitespace_text_returned_unchanged_witness:
  "translate_text ascii_lower marking_service
     (default_client\<lparr>cache := [lit ''   '' \<mapsto> lit ''x'']\<rparr>) (lit ''   '') start =
     (Inr (lit ''   ''), default_client\<lparr>cache := [lit ''   '' \<mapsto> lit ''x'']\<rparr>, start) \<and>
   translate_text ascii_lower marking_service default_client [] start =
     (Inr [], default_client, start)"
proof -
  have spaces: "\<forall>c\<in>set (lit ''   ''). is_space c"
    by (simp add: lit_def is_space_def)
  have none: "\<forall>c\<in>set ([] :: pystr). is_space c"
    by simp
  show ?thesis
    by (rule conjI [OF whitespace_text_returned_unchanged [OF spaces]
          whitespace_text_returned_unchanged [OF none]])
qed



lemmas splitter_evals = split_text_def sentence_split_def is_terminator_def

lemma split_example:
  "split_text (lit ''A. B. C.'') 5 = [lit ''A. B.'', lit ''C.'']"
  by (simp add: splitter_evals string_evals)

lemma split_example_codes:
  "split_text [65, 46, 32, 66, 46, 32, 67, 46] 5 = [[65, 46, 32, 66, 46], [67, 46]]"
  using split_example by (simp add: lit_def)

lemma marking_short:
  "translate_text ascii_lower marking_service default_client (lit ''Hi'') start =
     (Inr (35793 # lit ''Hi''),
      default_client\<lparr>cache := [lit ''Hi'' \<mapsto> 35793 # lit ''Hi'']\<rparr>,
      snd (snd (translate_text ascii_lower marking_service default_client (lit ''Hi'') start)))"
  by (simp add: client_evals cleaning_evals string_evals)

lemma marking_long:
  "translate_text ascii_lower marking_service small_client (lit ''A. B. C.'') start =
     (Inr ((35793 # lit ''A. B.'') @ (35793 # lit ''C.'')),
      small_client\<lparr>cache :=
        [lit ''A. B. C.'' \<mapsto> (35793 # lit ''A. B.'') @ (35793 # lit ''C.'')]\<rparr>,
      snd (snd (translate_text ascii_lower marking_service small_client (lit ''A. B. C.'')
        start)))"
  by (simp add: client_evals cleaning_evals string_evals split_example_codes)

lemma translate_text_value:
  assumes "translate_text lower srv t text s = (Inr v, t', s')"
  shows "(strip text = [] \<and> v = text \<and> t' = t) \<or>
         (strip text \<noteq> [] \<and> cache t' text = Some v \<and>
          (t' = t \<or> t' = t\<lparr>cache := (cache t)(text \<mapsto> v)\<rparr>))"
proof (cases "strip text = []")
  case True
  with assms show ?thesis by (simp add: translate_text_def)
next
  case False
  show ?thesis
  proof (cases "cache t text")
    case (Some cached)
    with False assms show ?thesis by (simp add: translate_text_def)
  next
    case None
    with False assms show ?thesis
      by (auto simp: translate_text_def split: if_splits prod.splits sum.splits)
  qed
qed

lemma translate_text_cached:
  "strip text \<noteq> [] \<Longrightarrow> cache t text = Some v \<Longrightarrow>
     translate_text lower srv t text s = (Inr v, t, s)"
  by (simp add: translate_text_def)

lemma translate_text_again:
  assumes "translate_text lower srv t text s = (Inr v, t', s')"
  shows "translate_text lower srv2 t' text s2 = (Inr v, t', s2)"
proof (cases "strip text = []")
  case True
  with translate_text_value [OF assms] show ?thesis by (simp add: translate_text_def)
next
  case False
  with translate_text_value [OF assms] have "cache t' text = Some v" by blast
  with False show ?thesis by (rule translate_text_cached)
qed

lemma translate_text_other_keys:
  assumes "translate_text lower srv t text s = (Inr v, t', s')" "k \<noteq> text"
  shows "cache t' k = cache t k"
  using translate_text_value [OF assms(1)] assms(2) by auto

text \<open>
  Claim C6 as stated fails for a text that is already in the cache: after one call of
  \<^verbatim>\<open>translate_text("Hi")\<close>, which makes one call of \<^verbatim>\<open>_translate_once\<close>, a second
  call with the same non-whitespace text of two characters (at most \<^verbatim>\<open>max_chars\<close>)
  makes no logical translation call at all and changes nothing.
\<close>

theorem cached_text_makes_no_call_counterexample:
  "strip (lit ''Hi'') \<noteq> [] \<and> int (length (lit ''Hi'')) \<le> max_chars default_client \<and>
   (case translate_text ascii_lower marking_service default_client (lit ''Hi'') start of
      (r1, t1, s1) \<Rightarrow>
        once_calls s1 = [lit ''Hi''] \<and>
        translate_text ascii_lower marking_service t1 (lit ''Hi'') s1 = (r1, t1, s1))"
proof -
  have "strip (lit ''Hi'') \<noteq> []" "int (length (lit ''Hi'')) \<le> max_chars default_client"
    by (simp_all add: string_evals default_client_def OllamaTranslator_def)
  moreover have "once_calls
      (snd (snd (translate_text ascii_lower marking_service default_client (lit ''Hi'') start))) =
      [lit ''Hi'']"
    by (simp add: client_evals cleaning_evals string_evals)
  moreover have "translate_text ascii_lower marking_service
      (default_client\<lparr>cache := [lit ''Hi'' \<mapsto> 35793 # lit ''Hi'']\<rparr>) (lit ''Hi'') s2 =
      (Inr (35793 # lit ''Hi''),
       default_client\<lparr>cache := [lit ''Hi'' \<mapsto> 35793 # lit ''Hi'']\<rparr>, s2)" for s2 :: "unit io"
    by (simp add: translate_text_def string_evals)
  ultimately show ?thesis
    by (subst marking_short) simp
qed

text \<open>
  Claim C6, amended. For every text that is not whitespace only and is not yet in the
  cache: if \<^verbatim>\<open>len(text) <= max_chars\<close>, \<^verbatim>\<open>translate_text\<close> makes exactly one call of
  \<^verbatim>\<open>_translate_once\<close>, on the text itself, and on success stores its result in the
  cache under the text; otherwise, when it returns a value, that value is the
  concatenation, with no separator, of the results of one call of \<^verbatim>\<open>_translate_once\<close>
  per chunk of \<^verbatim>\<open>split_text(text, max_chars)\<close>, made in the order of the chunks, and it
  is stored in the cache under the original text.
\<close>

theorem uncached_text_calls:
  assumes "\<exists>c\<in>set text. \<not> is_space c" and "cache t text = None"
  shows
    "(int (length text) \<le> max_chars t \<longrightarrow>
        translate_text lower srv t text s =
          (case translate_once lower srv t text s of
             (Inl e, s1) \<Rightarrow> (Inl e, t, s1)
           | (Inr r, s1) \<Rightarrow> (Inr r, t\<lparr>cache := (cache t)(text \<mapsto> r)\<rparr>, s1)) \<and>
        once_calls (snd (snd (translate_text lower srv t text s))) = once_calls s @ [text]) \<and>
     (\<not> int (length text) \<le> max_chars t \<longrightarrow>
        (\<forall>v t' s'. translate_text lower srv t text s = (Inr v, t', s') \<longrightarrow>
           (\<exists>rs. list_all2
                   (\<lambda>chunk r. \<exists>s1 s2. translate_once lower srv t chunk s1 = (Inr r, s2))
                   (split_text text (max_chars t)) rs \<and> v = concat rs) \<and>
           once_calls s' = once_calls s @ split_text text (max_chars t) \<and>
           t' = t\<lparr>cache := (cache t)(text \<mapsto> v)\<rparr>))"
proof -
  from assms(1) have nonblank: "strip text \<noteq> []"
    by (simp add: strip_empty_iff)
  show ?thesis
    using translate_text_short [OF nonblank assms(2)]
      translate_text_short_calls [OF nonblank assms(2)]
      translate_text_long [OF nonblank assms(2)]
    by blast
qed

theorem uncached_text_calls_witness:
  "once_calls (snd (snd (translate_text ascii_lower marking_service default_client
      (lit ''Hi'') start))) = once_calls start @ [lit ''Hi''] \<and>
   once_calls (snd (snd (translate_text ascii_lower marking_service small_client
      (lit ''A. B. C.'') start))) =
     once_calls start @ split_text (lit ''A. B. C.'') (max_chars small_client)"
proof -
  have short: "\<exists>c\<in>set (lit ''Hi''). \<not> is_space c" "cache default_client (lit ''Hi'') = None"
    "int (length (lit ''Hi'')) \<le> max_chars default_client"
    by (simp_all add: string_evals default_client_def OllamaTranslator_def)
  have long: "\<exists>c\<in>set (lit ''A. B. C.''). \<not> is_space c"
    "cache small_client (lit ''A. B. C.'') = None"
    "\<not> int (length (lit ''A. B. C.'')) \<le> max_chars small_client"
    by (simp_all add: string_evals small_client_def OllamaTranslator_def)
  from uncached_text_calls [OF short(1,2), of ascii_lower marking_service start] short(3)
  have first: "once_calls (snd (snd (translate_text ascii_lower marking_service default_client
      (lit ''Hi'') start))) = once_calls start @ [lit ''Hi'']"
    by blast
  from uncached_text_calls [OF long(1,2), of ascii_lower marking_service start] long(3)
    marking_long
  have "once_calls (snd (snd (translate_text ascii_lower marking_service small_client
      (lit ''A. B. C.'') start))) =
     once_calls start @ split_text (lit ''A. B. C.'') (max_chars small_client)"
    by blast
  with first show ?thesis by blast
qed

text \<open>
  Claim C2 as stated fails for a text longer than \<^verbatim>\<open>max_chars\<close>: with chunks of at most
  five characters, two calls of \<^verbatim>\<open>translate_text("A. B. C.")\<close> make two calls of
  \<^verbatim>\<open>_translate_once\<close> and post two requests, not one; both are made by the first call,
  and the second call returns the cached value.
\<close>

theorem long_text_two_calls_counterexample:
  "strip (lit ''A. B. C.'') \<noteq> [] \<and>
   (case translate_text ascii_lower marking_service small_client (lit ''A. B. C.'') start of
      (r1, t1, s1) \<Rightarrow>
        (case translate_text ascii_lower marking_service t1 (lit ''A. B. C.'') s1 of
           (r2, t2, s2) \<Rightarrow>
             r2 = r1 \<and> once_calls s2 = [lit ''A. B.'', lit ''C.''] \<and> length (posted s2) = 2))"
proof -
  have "strip (lit ''A. B. C.'') \<noteq> []"
    by (simp add: string_evals)
  moreover have "once_calls
      (snd (snd (translate_text ascii_lower marking_service small_client (lit ''A. B. C.'')
         start))) = [lit ''A. B.'', lit ''C.'']"
    by (simp add: client_evals cleaning_evals string_evals split_example_codes)
  moreover have "length (posted
      (snd (snd (translate_text ascii_lower marking_service small_client (lit ''A. B. C.'')
         start)))) = 2"
    by (simp add: client_evals cleaning_evals string_evals split_example_codes)
  moreover have "translate_text ascii_lower marking_service
      (small_client\<lparr>cache :=
        [lit ''A. B. C.'' \<mapsto> (35793 # lit ''A. B.'') @ (35793 # lit ''C.'')]\<rparr>)
      (lit ''A. B. C.'') s2 =
      (Inr ((35793 # lit ''A. B.'') @ (35793 # lit ''C.'')),
       small_client\<lparr>cache :=
        [lit ''A. B. C.'' \<mapsto> (35793 # lit ''A. B.'') @ (35793 # lit ''C.'')]\<rparr>, s2)"
    for s2 :: "unit io"
    by (simp add: translate_text_def string_evals)
  ultimately show ?thesis
    by (subst marking_long) simp
qed

text \<open>
  Claim C2, amended. The cache is keyed by the exact source string: a new client has an
  empty cache; a call of \<^verbatim>\<open>translate_text(text)\<close> that raises leaves the cache as it
  was; a call that returns changes no entry of the cache under any other key than
  \<open>text\<close> itself; and after it has returned a value, every later call with the identical
  string returns that value with no request, no call of \<^verbatim>\<open>_translate_once\<close> and no
  change of the client, whatever the service would answer. The first call of a text that
  is not whitespace only, not cached and at most \<^verbatim>\<open>max_chars\<close> long makes exactly one
  call of \<^verbatim>\<open>_translate_once\<close> (for a longer text it makes one per chunk).
\<close>

theorem cache_exact_key:
  "cache (OllamaTranslator m u mc r) k = None \<and>
   (translate_text lower srv t text s = (Inl e, t', s') \<longrightarrow> t' = t) \<and>
   (translate_text lower srv t text s = (Inr v, t', s') \<longrightarrow>
      (\<forall>k. k \<noteq> text \<longrightarrow> cache t' k = cache t k) \<and>
      (\<forall>srv2 s2. translate_text lower srv2 t' text s2 = (Inr v, t', s2)) \<and>
      ((\<exists>c\<in>set text. \<not> is_space c) \<and> cache t text = None \<and>
       int (length text) \<le> max_chars t \<longrightarrow> once_calls s' = once_calls s @ [text]))"
proof -
  have "cache (OllamaTranslator m u mc r) k = None"
    by (simp add: OllamaTranslator_def)
  moreover have "translate_text lower srv t text s = (Inl e, t', s') \<longrightarrow> t' = t"
    using translate_text_error_keeps_client by blast
  moreover have "translate_text lower srv t text s = (Inr v, t', s') \<longrightarrow>
      (\<forall>k. k \<noteq> text \<longrightarrow> cache t' k = cache t k)"
    using translate_text_other_keys by blast
  moreover have "translate_text lower srv t text s = (Inr v, t', s') \<longrightarrow>
      (\<forall>srv2 s2. translate_text lower srv2 t' text s2 = (Inr v, t', s2))"
    using translate_text_again by blast
  moreover have "translate_text lower srv t text s = (Inr v, t', s') \<longrightarrow>
      ((\<exists>c\<in>set text. \<not> is_space c) \<and> cache t text = None \<and>
       int (length text) \<le> max_chars t \<longrightarrow> once_calls s' = once_calls s @ [text])"
  proof (intro impI)
    assume run: "translate_text lower srv t text s = (Inr v, t', s')"
      and pre: "(\<exists>c\<in>set text. \<not> is_space c) \<and> cache t text = None \<and>
        int (length text) \<le> max_chars t"
    from pre have "strip text \<noteq> []" by (simp add: strip_empty_iff)
    with pre translate_text_short_calls [of "text" t lower srv s] run
    show "once_calls s' = once_calls s @ [text]" by simp
  qed
  ultimately show ?thesis by blast
qed

theorem cache_exact_key_witness:
  "translate_text ascii_lower failing_service
     (default_client\<lparr>cache := [lit ''Hi'' \<mapsto> 35793 # lit ''Hi'']\<rparr>) (lit ''Hi'') start =
     (Inr (35793 # lit ''Hi''),
      default_client\<lparr>cache := [lit ''Hi'' \<mapsto> 35793 # lit ''Hi'']\<rparr>, start) \<and>
   cache (default_client\<lparr>cache := [lit ''Hi'' \<mapsto> 35793 # lit ''Hi'']\<rparr>) (lit ''hi'') =
     cache default_client (lit ''hi'') \<and>
   cache default_client (lit ''hi'') = None"
proof -
  have differ: "lit ''hi'' \<noteq> lit ''Hi''"
    by (simp add: lit_def)
  have fresh: "cache default_client (lit ''hi'') = None"
    by (simp add: default_client_def OllamaTranslator_def)
  from cache_exact_key [of _ _ _ _ _ ascii_lower marking_service default_client "lit ''Hi''"
      start _ _ _ "35793 # lit ''Hi''"] marking_short differ fresh
  show ?thesis by blast
qed

section \<open>Image paths\<close>

lemma normalize_no_leading:
  "\<not> startswith (normalize_epub_path path) [46] \<and> \<not> startswith (normalize_epub_path path) [47]"
proof (cases "normalize_epub_path path")
  case Nil
  then show ?thesis by (simp add: startswith_def)
next
  case (Cons c cs)
  then have "\<not> (hd (normalize_epub_path path) = 46 \<or> hd (normalize_epub_path path) = 47)"
    unfolding normalize_epub_path_def
    using hd_dropWhile [of "\<lambda>c. c = 46 \<or> c = 47" "normpath path"] by fastforce
  with Cons show ?thesis by (simp add: startswith_def)
qed

lemma replace_slash_empty: "replace_slash name = [] \<longleftrightarrow> name = []"
  by (cases name) (auto simp: replace_slash_def)

lemma build_image_map_loop_keys:
  "build_image_map_loop temp_dir items mapping files = Inr (mapping', files') \<Longrightarrow>
     dom mapping' = dom mapping \<union> (\<lambda>item. normalize_epub_path (get_name item)) ` set items"
proof (induction items arbitrary: mapping files)
  case Nil
  then show ?case by simp
next
  case (Cons item items)
  let ?name = "normalize_epub_path (get_name item)"
  let ?out = "posixpath_join temp_dir (replace_slash ?name)"
  from Cons.prems
  have rest: "build_image_map_loop temp_dir items (mapping(?name \<mapsto> ?out))
      (files @ [(?out, get_content item)]) = Inr (mapping', files')"
    by (auto simp: Let_def split: if_splits)
  from Cons.IH [OF rest] show ?case by auto
qed

lemma build_image_map_loop_values:
  "build_image_map_loop temp_dir items mapping files = Inr (mapping', files') \<Longrightarrow>
     mapping' k = Some v \<Longrightarrow> mapping k = Some v \<or> (k \<noteq> [] \<and> v \<noteq> [])"
proof (induction items arbitrary: mapping files)
  case Nil
  then show ?case by simp
next
  case (Cons item items)
  let ?name = "normalize_epub_path (get_name item)"
  let ?out = "posixpath_join temp_dir (replace_slash ?name)"
  from Cons.prems(1) have nonempty: "?name \<noteq> []"
    and rest: "build_image_map_loop temp_dir items (mapping(?name \<mapsto> ?out))
      (files @ [(?out, get_content item)]) = Inr (mapping', files')"
    by (auto simp: Let_def replace_slash_empty split: if_splits)
  have out: "?out \<noteq> []"
    using nonempty by (auto simp: posixpath_join_def replace_slash_empty)
  from Cons.IH [OF rest Cons.prems(2)] nonempty out show ?case
    by (auto split: if_splits)
qed

lemma build_image_map_keys:
  assumes "build_image_map book temp_dir = Inr (image_map, files)"
  shows "dom image_map = (\<lambda>item. normalize_epub_path (get_name item)) ` set book"
    and "image_map k = Some v \<Longrightarrow> k \<noteq> [] \<and> v \<noteq> []"
  using assms build_image_map_loop_keys [of temp_dir book Map.empty "[]" image_map files]
    build_image_map_loop_values [of temp_dir book Map.empty "[]" image_map files k v]
  by (simp_all add: build_image_map_def)

lemma find_image_iff:
  assumes "build_image_map book temp_dir = Inr (image_map, files)"
    and "resolve_image_src src doc_path = Some r"
  shows "find_image image_map src doc_path \<noteq> None \<longleftrightarrow>
           (\<exists>item\<in>set book. normalize_epub_path (get_name item) = r)"
proof -
  have "find_image image_map src doc_path \<noteq> None \<longleftrightarrow> r \<in> dom image_map"
    using assms(2) build_image_map_keys(2) [OF assms(1), of r]
    by (auto simp: find_image_def split: option.splits)
  then show ?thesis
    by (auto simp: build_image_map_keys(1) [OF assms(1)])
qed

lemmas path_evals =
  normalize_epub_path_def normpath_def posixpath_join_def dirname_def resolve_image_src_def
  startswith_def lit_def Let_def

lemma normalize_example:
  "normalize_epub_path (lit ''.images/pic.png'') = lit ''images/pic.png''"
  by (simp add: path_evals)

lemma resolve_example:
  "resolve_image_src (lit ''../images/pic.png'') (lit ''OEBPS/text/ch1.xhtml'') =
     Some (lit ''OEBPS/images/pic.png'')"
  by (simp add: path_evals)

text \<open>
  Claim C10. \<^verbatim>\<open>normalize_epub_path(path)\<close> is \<^verbatim>\<open>posixpath.normpath(path)\<close> without its
  leading dots and slashes, so it never begins with a dot or a slash, and
  \<^verbatim>\<open>".images/pic.png"\<close> becomes \<^verbatim>\<open>"images/pic.png"\<close>. The keys of the image map that
  \<^verbatim>\<open>build_image_map\<close> returns are the normalized names of the image items, and a
  reference that \<^verbatim>\<open>resolve_image_src\<close> returns is the normalized join of the directory
  of the document and the source; so the lookup of \<^verbatim>\<open>process_block\<close> finds an image
  exactly when the resolved reference equals the normalized name of an item.
\<close>

theorem normalized_image_paths:
  "normalize_epub_path path = dropWhile (\<lambda>c. c = 46 \<or> c = 47) (normpath path) \<and>
   \<not> startswith (normalize_epub_path path) [46] \<and>
   \<not> startswith (normalize_epub_path path) [47] \<and>
   normalize_epub_path (lit ''.images/pic.png'') = lit ''images/pic.png'' \<and>
   (build_image_map book temp_dir = Inr (image_map, files) \<longrightarrow>
      dom image_map = (\<lambda>item. normalize_epub_path (get_name item)) ` set book \<and>
      (\<forall>src doc_path r. resolve_image_src src doc_path = Some r \<longrightarrow>
         r = normalize_epub_path (posixpath_join (dirname doc_path) src) \<and>
         (image_map r \<noteq> None \<longleftrightarrow>
            (\<exists>item\<in>set book. normalize_epub_path (get_name item) = r)) \<and>
         (find_image image_map src doc_path \<noteq> None \<longleftrightarrow>
            (\<exists>item\<in>set book. normalize_epub_path (get_name item) = r))))"
proof -
  have "build_image_map book temp_dir = Inr (image_map, files) \<longrightarrow>
      dom image_map = (\<lambda>item. normalize_epub_path (get_name item)) ` set book \<and>
      (\<forall>src doc_path r. resolve_image_src src doc_path = Some r \<longrightarrow>
         r = normalize_epub_path (posixpath_join (dirname doc_path) src) \<and>
         (image_map r \<noteq> None \<longleftrightarrow>
            (\<exists>item\<in>set book. normalize_epub_path (get_name item) = r)) \<and>
         (find_image image_map src doc_path \<noteq> None \<longleftrightarrow>
            (\<exists>item\<in>set book. normalize_epub_path (get_name item) = r)))"
  proof (intro impI conjI allI)
    assume built: "build_image_map book temp_dir = Inr (image_map, files)"
    show keys: "dom image_map = (\<lambda>item. normalize_epub_path (get_name item)) ` set book"
      by (rule build_image_map_keys(1) [OF built])
    fix src doc_path r
    assume resolved: "resolve_image_src src doc_path = Some r"
    then show "r = normalize_epub_path (posixpath_join (dirname doc_path) src)"
      by (auto simp: resolve_image_src_def Let_def split: if_splits)
    show "image_map r \<noteq> None \<longleftrightarrow>
        (\<exists>item\<in>set book. normalize_epub_path (get_name item) = r)"
    proof -
      have "image_map r \<noteq> None \<longleftrightarrow> r \<in> dom image_map"
        by (simp add: domIff)
      also have "\<dots> \<longleftrightarrow> (\<exists>item\<in>set book. normalize_epub_path (get_name item) = r)"
        unfolding keys by blast
      finally show ?thesis .
    qed
    show "find_image image_map src doc_path \<noteq> None \<longleftrightarrow>
        (\<exists>item\<in>set book. normalize_epub_path (get_name item) = r)"
      by (rule find_image_iff [OF built resolved])
  qed
  moreover have "normalize_epub_path path = dropWhile (\<lambda>c. c = 46 \<or> c = 47) (normpath path)"
    by (simp add: normalize_epub_path_def)
  ultimately show ?thesis
    using normalize_no_leading [of path] normalize_example by blast
qed

theorem normalized_image_paths_witness:
  "build_image_map [\<lparr>get_name = lit ''OEBPS/images/pic.png'', get_content = [137, 80]\<rparr>]
     (lit ''/tmp/t'') =
     Inr ([lit ''OEBPS/images/pic.png'' \<mapsto> lit ''/tmp/t/OEBPS__images__pic.png''],
          [(lit ''/tmp/t/OEBPS__images__pic.png'', [137, 80])]) \<and>
   resolve_image_src (lit ''../images/pic.png'') (lit ''OEBPS/text/ch1.xhtml'') =
     Some (lit ''OEBPS/images/pic.png'') \<and>
   find_image [lit ''OEBPS/images/pic.png'' \<mapsto> lit ''/tmp/t/OEBPS__images__pic.png'']
     (lit ''../images/pic.png'') (lit ''OEBPS/text/ch1.xhtml'') \<noteq> None"
proof -
  have built: "build_image_map
      [\<lparr>get_name = lit ''OEBPS/images/pic.png'', get_content = [137, 80]\<rparr>] (lit ''/tmp/t'') =
     Inr ([lit ''OEBPS/images/pic.png'' \<mapsto> lit ''/tmp/t/OEBPS__images__pic.png''],
          [(lit ''/tmp/t/OEBPS__images__pic.png'', [137, 80])])"
    by (simp add: build_image_map_def replace_slash_def path_evals)
  have named: "normalize_epub_path
      (get_name \<lparr>get_name = lit ''OEBPS/images/pic.png'', get_content = [137, 80]\<rparr>) =
      lit ''OEBPS/images/pic.png''"
    by (simp add: path_evals)
  let ?item = "\<lparr>get_name = lit ''OEBPS/images/pic.png'', get_content = [137, 80]\<rparr>"
  have "\<exists>item\<in>set [?item]. normalize_epub_path (get_name item) = lit ''OEBPS/images/pic.png''"
    using named by simp
  with normalized_image_paths [of "[]" "[?item]" "lit ''/tmp/t''"
      "[lit ''OEBPS/images/pic.png'' \<mapsto> lit ''/tmp/t/OEBPS__images__pic.png'']"
      "[(lit ''/tmp/t/OEBPS__images__pic.png'', [137, 80])]"] built resolve_example
  have "find_image [lit ''OEBPS/images/pic.png'' \<mapsto> lit ''/tmp/t/OEBPS__images__pic.png'']
     (lit ''../images/pic.png'') (lit ''OEBPS/text/ch1.xhtml'') \<noteq> None"
    by blast
  with built resolve_example show ?thesis by blast
qed

section \<open>The chunk splitter\<close>

lemma length_strip_le: "length (strip s) \<le> length s"
proof -
  have "length (strip s) \<le> length (lstrip s)"
    by (simp add: strip_def rstrip_def) (metis length_dropWhile_le length_rev)
  also have "\<dots> \<le> length s"
    by (simp add: lstrip_def length_dropWhile_le)
  finally show ?thesis .
qed

lemma loop_skip:
  "split_text_loop m chunks buf ([] # ps) = split_text_loop m chunks buf ps"
  by simp

lemma loop_fit:
  "part \<noteq> [] \<Longrightarrow> int (length buf) + int (length part) + 1 \<le> m \<Longrightarrow>
     split_text_loop m chunks buf (part # ps) =
       split_text_loop m chunks (strip (buf @ [32] @ part)) ps"
  by simp

lemma loop_flush:
  "part \<noteq> [] \<Longrightarrow> \<not> int (length buf) + int (length part) + 1 \<le> m \<Longrightarrow>
     split_text_loop m chunks buf (part # ps) =
       split_text_loop m (if buf \<noteq> [] then chunks @ [buf] else chunks) part ps"
  by simp

lemma split_text_loop_bound:
  assumes "\<forall>c\<in>set chunks. int (length c) \<le> m \<or> (c \<in> A \<and> m < int (length c))"
    and "buf = [] \<or> int (length buf) \<le> m \<or> (buf \<in> A \<and> m < int (length buf))"
    and "set ps \<subseteq> A"
  shows "\<forall>c\<in>set (split_text_loop m chunks buf ps).
           int (length c) \<le> m \<or> (c \<in> A \<and> m < int (length c))"
  using assms
proof (induction ps arbitrary: chunks buf)
  case Nil
  then show ?case by auto
next
  case (Cons part ps)
  from Cons.prems(3) have sub: "set ps \<subseteq> A" and part_in: "part \<in> A"
    by simp_all
  show ?case
  proof (cases "part = []")
    case True
    from Cons.IH [OF Cons.prems(1,2) sub] show ?thesis
      unfolding True loop_skip .
  next
    case False
    show ?thesis
    proof (cases "int (length buf) + int (length part) + 1 \<le> m")
      case True
      have "length (strip (buf @ [32] @ part)) \<le> length (buf @ [32] @ part)"
        by (rule length_strip_le)
      with True have "strip (buf @ [32] @ part) = [] \<or>
          int (length (strip (buf @ [32] @ part))) \<le> m \<or>
          (strip (buf @ [32] @ part) \<in> A \<and> m < int (length (strip (buf @ [32] @ part))))"
        by simp
      from Cons.IH [OF Cons.prems(1) this sub] show ?thesis
        unfolding loop_fit [OF False True] .
    next
      case no_fit: False
      have part: "part = [] \<or> int (length part) \<le> m \<or> (part \<in> A \<and> m < int (length part))"
        using part_in by linarith
      have chunks': "\<forall>c\<in>set (if buf \<noteq> [] then chunks @ [buf] else chunks).
          int (length c) \<le> m \<or> (c \<in> A \<and> m < int (length c))"
        using Cons.prems(1,2) by auto
      from Cons.IH [OF chunks' part sub] show ?thesis
        unfolding loop_flush [OF False no_fit] .
    qed
  qed
qed

lemma split_text_loop_keeps_chunks:
  "c \<in> set chunks \<Longrightarrow> c \<in> set (split_text_loop m chunks buf ps)"
proof (induction ps arbitrary: chunks buf)
  case Nil
  then show ?case by auto
next
  case (Cons part ps)
  show ?case
  proof (cases "part = []")
    case True
    from Cons.IH [OF Cons.prems] show ?thesis
      unfolding True loop_skip .
  next
    case False
    show ?thesis
    proof (cases "int (length buf) + int (length part) + 1 \<le> m")
      case True
      from Cons.IH [OF Cons.prems] show ?thesis
        unfolding loop_fit [OF False True] .
    next
      case no_fit: False
      have "c \<in> set (if buf \<noteq> [] then chunks @ [buf] else chunks)"
        using Cons.prems by simp
      from Cons.IH [OF this] show ?thesis
        unfolding loop_flush [OF False no_fit] .
    qed
  qed
qed

lemma split_text_loop_keeps_long_buf:
  "buf \<noteq> [] \<Longrightarrow> m < int (length buf) \<Longrightarrow> buf \<in> set (split_text_loop m chunks buf ps)"
proof (induction ps arbitrary: chunks)
  case Nil
  then show ?case by simp
next
  case (Cons part ps)
  show ?case
  proof (cases "part = []")
    case True
    from Cons.IH [OF Cons.prems] show ?thesis
      unfolding True loop_skip .
  next
    case False
    from Cons.prems(2) have no_fit: "\<not> int (length buf) + int (length part) + 1 \<le> m"
      by linarith
    have "buf \<in> set (if buf \<noteq> [] then chunks @ [buf] else chunks)"
      using Cons.prems(1) by simp
    then show ?thesis
      unfolding loop_flush [OF False no_fit] by (rule split_text_loop_keeps_chunks)
  qed
qed

lemma split_text_loop_keeps_long_part:
  "p \<in> set ps \<Longrightarrow> p \<noteq> [] \<Longrightarrow> m < int (length p) \<Longrightarrow>
     p \<in> set (split_text_loop m chunks buf ps)"
proof (induction ps arbitrary: chunks buf)
  case Nil
  then show ?case by simp
next
  case (Cons part ps)
  show ?case
  proof (cases "p = part")
    case True
    from Cons.prems(3) True
    have no_fit: "\<not> int (length buf) + int (length part) + 1 \<le> m"
      by simp
    from Cons.prems(2) True have nonempty: "part \<noteq> []" by simp
    have "part \<in> set (split_text_loop m (if buf \<noteq> [] then chunks @ [buf] else chunks) part ps)"
      using nonempty Cons.prems(3) True by (intro split_text_loop_keeps_long_buf) simp_all
    then show ?thesis
      unfolding loop_flush [OF nonempty no_fit] True .
  next
    case False
    with Cons.prems have in_rest: "p \<in> set ps" by simp
    note ih = Cons.IH [OF in_rest Cons.prems(2,3)]
    show ?thesis
    proof (cases "part = []")
      case True
      from ih show ?thesis unfolding True loop_skip .
    next
      case nonempty: False
      show ?thesis
      proof (cases "int (length buf) + int (length part) + 1 \<le> m")
        case True
        from ih show ?thesis unfolding loop_fit [OF nonempty True] .
      next
        case no_fit: False
        from ih show ?thesis unfolding loop_flush [OF nonempty no_fit] .
      qed
    qed
  qed
qed

text \<open>
  Claim C4. Every chunk of \<^verbatim>\<open>split_text(text, max_chars)\<close> has at most \<^verbatim>\<open>max_chars\<close>
  characters or is one sentence (one part of \<^verbatim>\<open>SENTENCE_SPLIT_RE.split(text)\<close>) that is
  longer than \<^verbatim>\<open>max_chars\<close>, kept whole; and every sentence longer than
  \<^verbatim>\<open>max_chars\<close> is such a chunk of its own.
\<close>

theorem chunk_length_bound:
  "(\<forall>chunk\<in>set (split_text text m).
      int (length chunk) \<le> m \<or>
      (chunk \<in> set (sentence_split text) \<and> m < int (length chunk))) \<and>
   (\<forall>part\<in>set (sentence_split text).
      part \<noteq> [] \<and> m < int (length part) \<longrightarrow>
      part \<in> set (split_text text m))"
proof -
  have "\<forall>chunk\<in>set (split_text_loop m [] [] (sentence_split text)).
      int (length chunk) \<le> m \<or>
      (chunk \<in> set (sentence_split text) \<and> m < int (length chunk))"
    by (rule split_text_loop_bound) simp_all
  moreover have "\<forall>part\<in>set (sentence_split text).
      part \<noteq> [] \<and> m < int (length part) \<longrightarrow>
      part \<in> set (split_text_loop m [] [] (sentence_split text))"
    using split_text_loop_keeps_long_part by blast
  ultimately show ?thesis
    unfolding split_text_def by blast
qed

theorem chunk_length_bound_witness:
  "sentence_split (lit ''Hello world. Hi.'') = [lit ''Hello world.'', lit ''Hi.''] \<and>
   (5::int) < int (length (lit ''Hello world.'')) \<and>
   lit ''Hello world.'' \<in> set (split_text (lit ''Hello world. Hi.'') 5)"
proof -
  have parts: "sentence_split (lit ''Hello world. Hi.'') = [lit ''Hello world.'', lit ''Hi.'']"
    by (simp add: splitter_evals string_evals)
  have long: "(5::int) < int (length (lit ''Hello world.''))" "lit ''Hello world.'' \<noteq> []"
    by (simp_all add: lit_def)
  from chunk_length_bound [of "lit ''Hello world. Hi.''" 5] parts long
  have "lit ''Hello world.'' \<in> set (split_text (lit ''Hello world. Hi.'') 5)"
    by (metis list.set_intros(1))
  with parts long show ?thesis by blast
qed

section \<open>Joining the chunks\<close>


lemma strip_space_prefix: "strip (32 # y) = strip y"
  by (simp add: strip_def lstrip_def is_space_def)

lemma lstrip_append: "lstrip x \<noteq> [] \<Longrightarrow> lstrip (x @ y) = lstrip x @ y"
proof -
  assume "lstrip x \<noteq> []"
  then obtain c where "c \<in> set x" "\<not> is_space c"
    by (auto simp: lstrip_empty_iff)
  then show ?thesis
    unfolding lstrip_def by (rule dropWhile_append1)
qed

lemma lstrip_append_blank: "lstrip x = [] \<Longrightarrow> lstrip (x @ y) = lstrip y"
  by (simp add: lstrip_def dropWhile_append dropWhile_eq_Nil_conv)

lemma rstrip_append: "rstrip y \<noteq> [] \<Longrightarrow> rstrip (x @ y) = x @ rstrip y"
proof -
  assume "rstrip y \<noteq> []"
  then obtain c where "c \<in> set (rev y)" "\<not> is_space c"
    by (auto simp: rstrip_empty_iff)
  then have "dropWhile is_space (rev y @ rev x) = dropWhile is_space (rev y) @ rev x"
    by (rule dropWhile_append1)
  then show ?thesis
    by (simp add: rstrip_def)
qed

lemma rstrip_rstrip: "rstrip (rstrip s) = rstrip s"
  using rstrip_id [of "rstrip s"] last_rstrip [of s] by blast

lemma lstrip_lstrip: "lstrip (lstrip s) = lstrip s"
  using lstrip_id [of "lstrip s"] hd_lstrip [of s] by blast

lemma clean_head: "x \<noteq> [] \<Longrightarrow> \<not> is_space (hd x) \<Longrightarrow>
  lstrip x = x \<and> rstrip x \<noteq> [] \<and> hd (rstrip x) = hd x \<and> strip x = rstrip x"
proof -
  assume x: "x \<noteq> []" "\<not> is_space (hd x)"
  then have l: "lstrip x = x" by (simp add: lstrip_id)
  have "hd x \<in> set x" using x(1) by simp
  with x(2) have r: "rstrip x \<noteq> []" by (auto simp: rstrip_empty_iff)
  with l show ?thesis by (simp add: strip_def hd_rstrip)
qed

lemma clean_last: "x \<noteq> [] \<Longrightarrow> \<not> is_space (last x) \<Longrightarrow>
  rstrip x = x \<and> lstrip x \<noteq> [] \<and> last (lstrip x) = last x \<and> strip x = lstrip x"
proof -
  assume x: "x \<noteq> []" "\<not> is_space (last x)"
  have "last x \<in> set x" using x(1) by simp
  with x(2) have l: "lstrip x \<noteq> []" by (auto simp: lstrip_empty_iff)
  have "last (lstrip x) = last x"
    using l unfolding lstrip_def
    by (metis append_take_drop_id dropWhile_eq_drop last_appendR)
  with l x show ?thesis by (simp add: strip_def rstrip_id)
qed

lemma strip_middle:
  assumes "pfx = [] \<or> (x \<noteq> [] \<and> \<not> is_space (hd x))"
    and "sfx = [] \<or> (x \<noteq> [] \<and> \<not> is_space (last x))"
  shows "strip (pfx @ strip x @ sfx) = strip (pfx @ x @ sfx)"
proof (cases "pfx = []")
  case pfx: True
  show ?thesis
  proof (cases "sfx = []")
    case True
    with pfx show ?thesis by (simp add: strip_strip)
  next
    case False
    with assms(2) have x: "x \<noteq> []" "\<not> is_space (last x)" by simp_all
    note c = clean_last [OF x]
    have "lstrip (lstrip x @ sfx) = lstrip x @ sfx"
      using c by (simp add: lstrip_append lstrip_lstrip)
    moreover have "lstrip (x @ sfx) = lstrip x @ sfx"
      using c by (simp add: lstrip_append)
    ultimately show ?thesis
      using pfx c by (simp add: strip_def)
  qed
next
  case pfx: False
  with assms(1) have x: "x \<noteq> []" "\<not> is_space (hd x)" by simp_all
  note h = clean_head [OF x]
  show ?thesis
  proof (cases "sfx = []")
    case sfx: True
    show ?thesis
    proof (cases "lstrip pfx = []")
      case True
      have "strip (pfx @ rstrip x) = rstrip (lstrip (rstrip x))"
        using True by (simp add: strip_def lstrip_append_blank)
      also have "lstrip (rstrip x) = rstrip x"
        using h x by (simp add: lstrip_id)
      also have "rstrip (rstrip x) = strip (pfx @ x)"
        using True h by (simp add: strip_def lstrip_append_blank rstrip_rstrip)
      finally show ?thesis using sfx h by simp
    next
      case False
      then have "strip (pfx @ rstrip x) = rstrip (lstrip pfx @ rstrip x)"
        "strip (pfx @ x) = rstrip (lstrip pfx @ x)"
        by (simp_all add: strip_def lstrip_append)
      then show ?thesis
        using sfx h by (simp add: rstrip_append rstrip_rstrip)
    qed
  next
    case False
    with assms(2) have "\<not> is_space (last x)" by simp
    with x have "strip x = x" by (simp add: strip_id)
    then show ?thesis by simp
  qed
qed

lemma join_Cons: "ys \<noteq> [] \<Longrightarrow> str_join sep (x # ys) = x @ sep @ str_join sep ys"
  by (cases ys) simp_all

lemma join_append:
  "xs \<noteq> [] \<Longrightarrow> ys \<noteq> [] \<Longrightarrow> str_join sep (xs @ ys) = str_join sep xs @ sep @ str_join sep ys"
proof (induction xs)
  case Nil
  then show ?case by simp
next
  case (Cons x xs)
  show ?case
  proof (cases "xs = []")
    case True
    with Cons.prems show ?thesis by (simp add: join_Cons)
  next
    case False
    with Cons have "str_join sep (xs @ ys) = str_join sep xs @ sep @ str_join sep ys" by simp
    with False Cons.prems show ?thesis by (simp add: join_Cons)
  qed
qed

lemma join_split: "str_join [32] (xs @ x # ys) = sep_before xs @ x @ sep_after ys"
proof (cases "xs = []")
  case True
  then show ?thesis by (cases ys) (simp_all add: sep_before_def sep_after_def)
next
  case False
  then have "str_join [32] (xs @ x # ys) = str_join [32] xs @ [32] @ str_join [32] (x # ys)"
    by (simp add: join_append)
  with False show ?thesis by (cases ys) (simp_all add: sep_before_def sep_after_def)
qed

lemma join_before: "str_join [32] (xs @ ys) = sep_before xs @ str_join [32] ys" if "ys \<noteq> []"
  using that by (cases "xs = []") (simp_all add: sep_before_def join_append)

lemma split_cut:
  "is_space c \<Longrightarrow> cur \<noteq> [] \<Longrightarrow> is_terminator (last cur) \<Longrightarrow>
     sentence_split_from cur (c # cs) = cur # sentence_split_from [] (dropWhile is_space cs)"
  by simp

lemma split_go:
  "\<not> (is_space c \<and> cur \<noteq> [] \<and> is_terminator (last cur)) \<Longrightarrow>
     sentence_split_from cur (c # cs) = sentence_split_from (cur @ [c]) cs"
  by auto

lemma sentence_split_from_nonempty: "sentence_split_from cur s \<noteq> []"
  by (induction cur s rule: sentence_split_from.induct) simp_all

lemma not_space_terminator: "is_terminator c \<Longrightarrow> \<not> is_space c"
  by (auto simp: is_terminator_def is_space_def)

lemma tails_ok_Cons:
  "tails_ok (p # ps) = ((ps = [] \<or> (p \<noteq> [] \<and> \<not> is_space (last p))) \<and> tails_ok ps)"
  by (cases ps) auto

lemma sentence_split_from_tails: "tails_ok (sentence_split_from cur s)"
proof (induction cur s rule: sentence_split_from.induct)
  case (1 cur)
  then show ?case by simp
next
  case (2 cur c cs)
  show ?case
  proof (cases "is_space c \<and> cur \<noteq> [] \<and> is_terminator (last cur)")
    case True
    with 2 have "tails_ok (sentence_split_from [] (dropWhile is_space cs))" by simp
    with True show ?thesis by (simp add: tails_ok_Cons not_space_terminator)
  next
    case False
    with 2 show ?thesis unfolding split_go [OF False] by blast
  qed
qed

lemma sentence_split_from_heads:
  "(cur \<noteq> [] \<longrightarrow> \<not> is_space (hd cur)) \<Longrightarrow> (cur = [] \<longrightarrow> s = [] \<or> \<not> is_space (hd s)) \<Longrightarrow>
     heads_ok (sentence_split_from cur s)"
proof (induction cur s rule: sentence_split_from.induct)
  case (1 cur)
  then show ?case by (auto simp: heads_ok_def)
next
  case (2 cur c cs)
  show ?case
  proof (cases "is_space c \<and> cur \<noteq> [] \<and> is_terminator (last cur)")
    case True
    have "dropWhile is_space cs = [] \<or> \<not> is_space (hd (dropWhile is_space cs))"
      using hd_dropWhile [of is_space cs] by blast
    with 2 True have "heads_ok (sentence_split_from [] (dropWhile is_space cs))" by simp
    with True 2 show ?thesis by (simp add: heads_ok_def)
  next
    case False
    have "\<not> is_space (hd (cur @ [c]))"
      using "2.prems" by (cases cur) simp_all
    with 2 False show ?thesis unfolding split_go [OF False] by blast
  qed
qed

lemma sentence_split_from_tl_heads: "heads_ok (tl (sentence_split_from cur s))"
proof (induction cur s rule: sentence_split_from.induct)
  case (1 cur)
  then show ?case by (simp add: heads_ok_def)
next
  case (2 cur c cs)
  show ?case
  proof (cases "is_space c \<and> cur \<noteq> [] \<and> is_terminator (last cur)")
    case True
    have "dropWhile is_space cs = [] \<or> \<not> is_space (hd (dropWhile is_space cs))"
      using hd_dropWhile [of is_space cs] by blast
    then have "heads_ok (sentence_split_from [] (dropWhile is_space cs))"
      by (intro sentence_split_from_heads) simp_all
    with True show ?thesis by simp
  next
    case False
    with 2 show ?thesis unfolding split_go [OF False] by blast
  qed
qed

lemma blank_strip: "strip x = [] \<Longrightarrow> c \<in> set x \<Longrightarrow> is_space c"
  by (auto simp: strip_empty_iff)

lemma strip_Nil: "strip [] = []"
  by (simp add: strip_def lstrip_def rstrip_def)

lemma split_text_loop_join:
  assumes "tails_ok ps"
    and "heads_ok (if chunks = [] \<and> buf = [] then tl ps else ps)"
    and "chunks \<noteq> [] \<longrightarrow> buf \<noteq> [] \<and> \<not> is_space (hd buf)"
  shows "strip (str_join [32] (split_text_loop m chunks buf ps)) =
         strip (str_join [32] (chunks @ held buf @ filter (\<lambda>p. p \<noteq> []) ps))"
  using assms
proof (induction ps arbitrary: chunks buf)
  case Nil
  then show ?case by (simp add: held_def strip_Nil)
next
  case (Cons part ps)
  let ?F = "filter (\<lambda>p. p \<noteq> []) ps"
  from Cons.prems(1) have tails: "tails_ok ps"
    and lastp: "ps \<noteq> [] \<Longrightarrow> part \<noteq> [] \<and> \<not> is_space (last part)"
    by (simp_all add: tails_ok_Cons)
  from Cons.prems(2) have heads: "heads_ok ps"
    by (simp add: heads_ok_def split: if_splits)
  then have heads': "heads_ok (if cs = [] \<and> b = [] then tl ps else ps)" for cs :: "pystr list" and b :: pystr
    by (cases ps) (simp_all add: heads_ok_def)
  show ?case
  proof (cases "part = []")
    case True
    with lastp have "ps = []" by blast
    with True show ?thesis by (simp add: held_def)
  next
    case part: False
    show ?thesis
    proof (cases "int (length buf) + int (length part) + 1 \<le> m")
      case fit: True
      let ?x = "buf @ [32] @ part"
      have lastx: "last ?x = last part" using part by simp
      have keep: "chunks \<noteq> [] \<longrightarrow> strip ?x \<noteq> [] \<and> \<not> is_space (hd (strip ?x))"
      proof
        assume "chunks \<noteq> []"
        with Cons.prems(3) have "buf \<noteq> []" "\<not> is_space (hd buf)" by simp_all
        then have "?x \<noteq> []" "\<not> is_space (hd ?x)" by simp_all
        from clean_head [OF this] show "strip ?x \<noteq> [] \<and> \<not> is_space (hd (strip ?x))"
          using \<open>\<not> is_space (hd ?x)\<close> by simp
      qed
      have "strip (str_join [32] (split_text_loop m chunks (strip ?x) ps)) =
            strip (str_join [32] (chunks @ held (strip ?x) @ ?F))"
        using tails heads' keep by (rule Cons.IH)
      moreover have "strip (str_join [32] (chunks @ held (strip ?x) @ ?F)) =
            strip (str_join [32] (chunks @ held buf @ part # ?F))"
      proof (cases "strip ?x = []")
        case blank: True
        with keep have chunks: "chunks = []" by blast
        have "is_space (last part)"
          using blank_strip [OF blank, of "last part"] part by simp
        with lastp have "ps = []" by blast
        have "strip part = []"
          using blank by (auto simp: strip_empty_iff)
        show ?thesis
        proof (cases "buf = []")
          case True
          with chunks \<open>ps = []\<close> blank \<open>strip part = []\<close> show ?thesis
            by (simp add: held_def strip_Nil)
        next
          case False
          with chunks \<open>ps = []\<close> blank show ?thesis
            by (simp add: held_def strip_Nil)
        qed
      next
        case full: False
        have mid: "strip (sep_before chunks @ strip ?x @ sep_after ?F) =
                   strip (sep_before chunks @ ?x @ sep_after ?F)"
        proof (rule strip_middle)
          show "sep_before chunks = [] \<or> (?x \<noteq> [] \<and> \<not> is_space (hd ?x))"
          proof (cases "chunks = []")
            case True
            then show ?thesis by (simp add: sep_before_def)
          next
            case False
            with Cons.prems(3) have "buf \<noteq> []" "\<not> is_space (hd buf)" by simp_all
            then show ?thesis by simp
          qed
          show "sep_after ?F = [] \<or> (?x \<noteq> [] \<and> \<not> is_space (last ?x))"
          proof (cases "?F = []")
            case True
            then show ?thesis by (simp add: sep_after_def)
          next
            case False
            then have "ps \<noteq> []" by auto
            with lastp lastx show ?thesis by simp
          qed
        qed
        have left: "str_join [32] (chunks @ held (strip ?x) @ ?F) =
                    sep_before chunks @ strip ?x @ sep_after ?F"
          using full by (simp add: held_def join_split)
        show ?thesis
        proof (cases "buf = []")
          case True
          with Cons.prems(3) have chunks: "chunks = []" by blast
          have "str_join [32] (chunks @ held buf @ part # ?F) = part @ sep_after ?F"
            using True chunks join_split [of "[]" part ?F]
            by (simp add: held_def sep_before_def)
          moreover have "strip (sep_before chunks @ ?x @ sep_after ?F) =
                         strip (part @ sep_after ?F)"
            using True chunks by (simp add: sep_before_def strip_space_prefix)
          ultimately show ?thesis using left mid by simp
        next
          case False
          have "str_join [32] (chunks @ held buf @ part # ?F) =
                str_join [32] ((chunks @ [buf]) @ part # ?F)"
            using False by (simp add: held_def)
          also have "\<dots> = sep_before (chunks @ [buf]) @ part @ sep_after ?F"
            by (rule join_split)
          also have "sep_before (chunks @ [buf]) = sep_before chunks @ buf @ [32]"
            using join_split [of chunks buf "[]"]
            by (simp add: sep_before_def sep_after_def)
          finally show ?thesis using left mid by simp
        qed
      qed
      ultimately show ?thesis
        unfolding loop_fit [OF part fit] using part by simp
    next
      case flush: False
      let ?cs = "if buf \<noteq> [] then chunks @ [buf] else chunks"
      have hp: "?cs \<noteq> [] \<longrightarrow> part \<noteq> [] \<and> \<not> is_space (hd part)"
      proof
        assume "?cs \<noteq> []"
        then have "\<not> (chunks = [] \<and> buf = [])" by (auto split: if_splits)
        with Cons.prems(2) have "heads_ok (part # ps)" by simp
        with part show "part \<noteq> [] \<and> \<not> is_space (hd part)"
          by (simp add: heads_ok_def)
      qed
      have "strip (str_join [32] (split_text_loop m ?cs part ps)) =
            strip (str_join [32] (?cs @ held part @ ?F))"
        using tails heads' hp by (rule Cons.IH)
      moreover have "?cs @ held part @ ?F = chunks @ held buf @ filter (\<lambda>p. p \<noteq> []) (part # ps)"
        using part by (simp add: held_def)
      ultimately show ?thesis
        unfolding loop_flush [OF part flush] by simp
    qed
  qed
qed

text \<open>
  C5. Joining the chunks of \<^verbatim>\<open>split_text(text, max_chars)\<close> with single spaces gives,
  up to whitespace at the two ends, the sentences of the text joined with single spaces in
  their order: no sentence is lost, duplicated or moved, and only the whitespace between
  two sentences is replaced by one space. This holds for every \<open>max_chars\<close>, also when a
  sentence is longer than it.
\<close>

theorem chunks_reconstruct_sentences:
  "strip (str_join [32] (split_text text m)) = strip (str_join [32] (sentences text))"
proof -
  have "tails_ok (sentence_split_from [] text)"
    by (rule sentence_split_from_tails)
  moreover have "heads_ok (if ([]::pystr list) = [] \<and> ([]::pystr) = []
      then tl (sentence_split_from [] text) else sentence_split_from [] text)"
    by (simp add: sentence_split_from_tl_heads)
  moreover have "([]::pystr list) \<noteq> [] \<longrightarrow> ([]::pystr) \<noteq> [] \<and> \<not> is_space (hd [])"
    by simp
  ultimately have "strip (str_join [32] (split_text_loop m [] [] (sentence_split_from [] text))) =
      strip (str_join [32] ([] @ held [] @ filter (\<lambda>p. p \<noteq> []) (sentence_split_from [] text)))"
    by (rule split_text_loop_join)
  then show ?thesis
    by (simp add: split_text_def sentence_split_def sentences_def held_def)
qed

theorem chunks_reconstruct_sentences_witness:
  "sentences (lit ''A.  B.'' @ [10] @ lit '' C.'') = [lit ''A.'', lit ''B.'', lit ''C.''] \<and>
   split_text (lit ''A.  B.'' @ [10] @ lit '' C.'') 5 = [lit ''A. B.'', lit ''C.''] \<and>
   strip (str_join [32] (split_text (lit ''A.  B.'' @ [10] @ lit '' C.'') 5)) =
     strip (str_join [32] (sentences (lit ''A.  B.'' @ [10] @ lit '' C.''))) \<and>
   strip (str_join [32] (sentences (lit ''A.  B.'' @ [10] @ lit '' C.''))) = lit ''A. B. C.''"
proof -
  have parts: "sentences (lit ''A.  B.'' @ [10] @ lit '' C.'') = [lit ''A.'', lit ''B.'', lit ''C.'']"
    by (simp add: sentences_def splitter_evals string_evals)
  have chunks: "split_text (lit ''A.  B.'' @ [10] @ lit '' C.'') 5 = [lit ''A. B.'', lit ''C.'']"
    by (simp add: splitter_evals string_evals)
  have joined: "strip (str_join [32] [lit ''A.'', lit ''B.'', lit ''C.'']) = lit ''A. B. C.''"
    by (simp add: string_evals)
  from chunks_reconstruct_sentences [of "lit ''A.  B.'' @ [10] @ lit '' C.''" 5] parts chunks joined
  show ?thesis by simp
qed

section \<open>The segment extractor and the merged runs\<close>

lemma merged_runs_single: "merged_runs [x] = [x]"
  by (cases x) simp_all

lemma merged_runs_text_text:
  "merged_runs (Text_segment a # Text_segment b # xs) = merged_runs (Text_segment (a @ b) # xs)"
  by (simp split: list.splits segment.splits)

lemma merged_runs_barrier:
  "\<not> (is_text x \<and> is_text y) \<Longrightarrow> merged_runs (x # y # zs) = x # merged_runs (y # zs)"
  by (cases x; cases y) simp_all

lemma butlast_map_last: "xs \<noteq> [] \<Longrightarrow> butlast (map f xs) @ [f (last xs)] = map f xs"
  by (induction xs) auto

lemma last_not_in_butlast: "distinct xs \<Longrightarrow> xs \<noteq> [] \<Longrightarrow> last xs \<notin> set (butlast xs)"
  by (induction xs) (auto dest: in_set_butlastD)

lemma merge_loop_runs:
  "distinct (merged @ rs) \<Longrightarrow>
     map (snd (merge_loop merged rs h)) (fst (merge_loop merged rs h)) =
       (if merged = [] then merged_runs (map h rs)
        else butlast (map h merged) @ merged_runs (h (last merged) # map h rs))"
proof (induction rs arbitrary: merged h)
  case Nil
  then show ?case
    by (simp add: merged_runs_single butlast_map_last)
next
  case (Cons seg segs)
  show ?case
  proof (cases "is_text (h seg) \<and> merged \<noteq> [] \<and> is_text (h (last merged))")
    case True
    let ?v = "Text_segment (segment_value (h (last merged)) @ segment_value (h seg))"
    let ?h = "h(last merged := ?v)"
    from True have step: "merge_loop merged (seg # segs) h = merge_loop merged segs ?h"
      by simp
    from Cons.prems have d: "distinct (merged @ segs)" by simp
    from True have ne: "merged \<noteq> []" by blast
    from True have "last merged \<in> set merged" by simp
    with Cons.prems have notin: "last merged \<notin> set segs" by auto
    from Cons.prems True have "last merged \<notin> set (butlast merged)"
      by (simp add: last_not_in_butlast)
    then have front: "butlast (map ?h merged) = butlast (map h merged)"
      by (simp add: map_butlast [symmetric])
    from notin have rest: "map ?h segs = map h segs" by simp
    obtain a b where ab: "h (last merged) = Text_segment a" "h seg = Text_segment b"
      using True by (cases "h (last merged)"; cases "h seg") simp_all
    have "map (snd (merge_loop merged segs ?h)) (fst (merge_loop merged segs ?h)) =
          butlast (map ?h merged) @ merged_runs (?h (last merged) # map ?h segs)"
      using Cons.IH [OF d, of ?h] ne by (simp only: if_False)
    also have "\<dots> = butlast (map h merged) @ merged_runs (?v # map h segs)"
      by (simp only: front rest fun_upd_same)
    also have "\<dots> = butlast (map h merged) @ merged_runs (Text_segment (a @ b) # map h segs)"
      by (simp only: ab segment_value.simps)
    also have "\<dots> = butlast (map h merged) @ merged_runs (h (last merged) # map h (seg # segs))"
      using ab by (simp only: merged_runs_text_text list.map)
    finally show ?thesis using step True by simp
  next
    case False
    then have step: "merge_loop merged (seg # segs) h = merge_loop (merged @ [seg]) segs h"
      by auto
    from Cons.prems have d: "distinct ((merged @ [seg]) @ segs)" by simp
    have ih: "map (snd (merge_loop (merged @ [seg]) segs h)) (fst (merge_loop (merged @ [seg]) segs h)) =
          map h merged @ merged_runs (h seg # map h segs)"
      using Cons.IH [OF d, of h] by simp
    show ?thesis
    proof (cases "merged = []")
      case True
      with ih step show ?thesis by simp
    next
      case ne: False
      with False have "\<not> (is_text (h (last merged)) \<and> is_text (h seg))" by blast
      then have "merged_runs (h (last merged) # h seg # map h segs) =
                 h (last merged) # merged_runs (h seg # map h segs)"
        by (rule merged_runs_barrier)
      moreover have "butlast (map h merged) @ [h (last merged)] = map h merged"
        using ne by (rule butlast_map_last)
      ultimately show ?thesis using ih step ne by simp
    qed
  qed
qed

lemma fold_walk_segments:
  assumes "\<And>c segs h k. c \<in> set cs \<Longrightarrow>
      \<exists>h'. walk c (segs, h, k) =
             (segs @ [k..<k + length (document_segments c)], h',
              k + length (document_segments c)) \<and>
           map h' [k..<k + length (document_segments c)] = document_segments c \<and>
           (\<forall>a<k. h' a = h a)"
  shows "\<exists>h'. fold (\<lambda>grand st. walk grand st) cs (segs, h, k) =
             (segs @ [k..<k + length (concat (map document_segments cs))], h',
              k + length (concat (map document_segments cs))) \<and>
           map h' [k..<k + length (concat (map document_segments cs))] =
             concat (map document_segments cs) \<and>
           (\<forall>a<k. h' a = h a)"
  using assms
proof (induction cs arbitrary: segs h k)
  case Nil
  then show ?case by simp
next
  case (Cons c cs)
  let ?l1 = "length (document_segments c)"
  let ?l2 = "length (concat (map document_segments cs))"
  from Cons.prems [of c segs h k] obtain h1 where
    w1: "walk c (segs, h, k) = (segs @ [k..<k + ?l1], h1, k + ?l1)"
    and m1: "map h1 [k..<k + ?l1] = document_segments c"
    and k1: "\<forall>a<k. h1 a = h a"
    by auto
  have "\<exists>h'. fold (\<lambda>grand st. walk grand st) cs (segs @ [k..<k + ?l1], h1, k + ?l1) =
             ((segs @ [k..<k + ?l1]) @ [k + ?l1..<k + ?l1 + ?l2], h', k + ?l1 + ?l2) \<and>
           map h' [k + ?l1..<k + ?l1 + ?l2] = concat (map document_segments cs) \<and>
           (\<forall>a<k + ?l1. h' a = h1 a)"
    by (rule Cons.IH) (simp add: Cons.prems)
  then obtain h2 where
    w2: "fold (\<lambda>grand st. walk grand st) cs (segs @ [k..<k + ?l1], h1, k + ?l1) =
           ((segs @ [k..<k + ?l1]) @ [k + ?l1..<k + ?l1 + ?l2], h2, k + ?l1 + ?l2)"
    and m2: "map h2 [k + ?l1..<k + ?l1 + ?l2] = concat (map document_segments cs)"
    and k2: "\<forall>a<k + ?l1. h2 a = h1 a"
    by blast
  have upt: "[k..<k + ?l1 + ?l2] = [k..<k + ?l1] @ [k + ?l1..<k + ?l1 + ?l2]"
    by (rule upt_add_eq_append) simp
  have "map h2 [k..<k + ?l1] = map h1 [k..<k + ?l1]"
    using k2 by simp
  with m1 m2 upt have m: "map h2 [k..<k + ?l1 + ?l2] = document_segments c @ concat (map document_segments cs)"
    by simp
  have kk: "\<forall>a<k. h2 a = h a"
    using k1 k2 by simp
  have len: "length (concat (map document_segments (c # cs))) = ?l1 + ?l2"
    by simp
  have "fold (\<lambda>grand st. walk grand st) (c # cs) (segs, h, k) =
          (segs @ [k..<k + (?l1 + ?l2)], h2, k + (?l1 + ?l2))"
    using w1 w2 upt by (simp add: add.assoc)
  moreover have "map h2 [k..<k + (?l1 + ?l2)] = concat (map document_segments (c # cs))"
    using m by (simp add: add.assoc)
  ultimately show ?case
    unfolding len using kk by blast
qed

lemma walk_segments:
  "\<exists>h'. walk n (segs, h, k) =
          (segs @ [k..<k + length (document_segments n)], h',
           k + length (document_segments n)) \<and>
        map h' [k..<k + length (document_segments n)] = document_segments n \<and>
        (\<forall>a<k. h' a = h a)"
proof (induction n arbitrary: segs h k)
  case (NavigableString s)
  show ?case by simp
next
  case (Comment s)
  show ?case by simp
next
  case (Tag name attrs children)
  show ?case
  proof (cases "name = lit ''img'' \<or> name = lit ''br''")
    case True
    then show ?thesis by auto
  next
    case False
    have "\<exists>h'. fold (\<lambda>grand st. walk grand st) children (segs, h, k) =
             (segs @ [k..<k + length (concat (map document_segments children))], h',
              k + length (concat (map document_segments children))) \<and>
           map h' [k..<k + length (concat (map document_segments children))] =
             concat (map document_segments children) \<and>
           (\<forall>a<k. h' a = h a)"
      by (rule fold_walk_segments) (rule Tag.IH)
    with False show ?thesis by simp
  qed
qed

lemma extract_inline_segments_in_runs:
  "extract_inline_segments_in tag h k = merged_runs (document_segments tag)"
proof -
  let ?l = "length (document_segments tag)"
  obtain h1 where w: "walk tag ([], h, k) = ([] @ [k..<k + ?l], h1, k + ?l)"
    and m: "map h1 [k..<k + ?l] = document_segments tag"
    using walk_segments [of tag "[]" h k] by blast
  have "distinct ([] @ [k..<k + ?l])" by simp
  from merge_loop_runs [OF this, of h1] m
  have "map (snd (merge_loop [] [k..<k + ?l] h1)) (fst (merge_loop [] [k..<k + ?l] h1)) =
        merged_runs (document_segments tag)"
    by simp
  with w show ?thesis
    by (auto simp: extract_inline_segments_in_def merge_text_segments_def split: prod.splits)
qed

text \<open>
  C3, as the claim states it, fails on a comment. A comment is no text node, no image and
  no line break, and it has no children, so by the claim it contributes no segment; but
  \<^verbatim>\<open>isinstance(child, NavigableString)\<close> holds for it, and \<^verbatim>\<open>walk\<close> appends a text
  segment with its content. For \<^verbatim>\<open><p>A<!--c-->B</p>\<close> the code returns the one text
  segment \<^verbatim>\<open>AcB\<close>, where the claim gives \<^verbatim>\<open>AB\<close>.
\<close>

theorem comment_segment_counterexample:
  "extract_inline_segments
     (Tag (lit ''p'') Map.empty
        [NavigableString (lit ''A''), Comment (lit ''c''), NavigableString (lit ''B'')]) =
     [Text_segment (lit ''AcB'')] \<and>
   merged_runs (claimed_segments
     (Tag (lit ''p'') Map.empty
        [NavigableString (lit ''A''), Comment (lit ''c''), NavigableString (lit ''B'')])) =
     [Text_segment (lit ''AB'')] \<and>
   extract_inline_segments
     (Tag (lit ''p'') Map.empty
        [NavigableString (lit ''A''), Comment (lit ''c''), NavigableString (lit ''B'')]) \<noteq>
   merged_runs (claimed_segments
     (Tag (lit ''p'') Map.empty
        [NavigableString (lit ''A''), Comment (lit ''c''), NavigableString (lit ''B'')]))"
  by (simp add: extract_inline_segments_def extract_inline_segments_in_def
      merge_text_segments_def lit_def)

text \<open>
  C3, amended. For every subtree, \<^verbatim>\<open>extract_inline_segments\<close> returns the segments in
  document order, where each string node (a text node, and also a comment or another
  \<^verbatim>\<open>NavigableString\<close>) contributes a text segment carrying its string, each \<^verbatim>\<open>img\<close>
  node an image segment carrying its source path (empty when it has none), each \<^verbatim>\<open>br\<close>
  node the text segment of a line feed, and every other node the segments of its children
  in order and none of its own; then the consecutive text segments are merged by
  concatenation in the order met, and an image segment is a barrier. In particular text
  \<^verbatim>\<open>A\<close>, an image and text \<^verbatim>\<open>B\<close>, the texts inside wrapper tags, give exactly
  the text segment \<^verbatim>\<open>A\<close>, the image segment and the text segment \<^verbatim>\<open>B\<close>.
\<close>

theorem segments_in_document_order:
  "extract_inline_segments tag = merged_runs (document_segments tag) \<and>
   extract_inline_segments
     (Tag (lit ''p'') Map.empty
        [Tag (lit ''span'') Map.empty [NavigableString (lit ''A'')],
         Tag (lit ''img'') [lit ''src'' \<mapsto> ref] [],
         Tag (lit ''b'') Map.empty [NavigableString (lit ''B'')]]) =
     [Text_segment (lit ''A''), Img_segment ref, Text_segment (lit ''B'')]"
proof -
  have general: "extract_inline_segments t = merged_runs (document_segments t)" for t
    unfolding extract_inline_segments_def by (rule extract_inline_segments_in_runs)
  have "merged_runs (document_segments
     (Tag (lit ''p'') Map.empty
        [Tag (lit ''span'') Map.empty [NavigableString (lit ''A'')],
         Tag (lit ''img'') [lit ''src'' \<mapsto> ref] [],
         Tag (lit ''b'') Map.empty [NavigableString (lit ''B'')]])) =
     [Text_segment (lit ''A''), Img_segment ref, Text_segment (lit ''B'')]"
    by (simp add: lit_def attr_get_def)
  with general show ?thesis by simp
qed

theorem segments_in_document_order_witness:
  "extract_inline_segments
     (Tag (lit ''div'') Map.empty
        [NavigableString (lit ''A''), Tag (lit ''br'') Map.empty [], Comment (lit ''c''),
         Tag (lit ''img'') Map.empty [],
         NavigableString (lit ''B''), Tag (lit ''i'') Map.empty [NavigableString (lit ''C'')]]) =
     [Text_segment (lit ''A'' @ [10] @ lit ''c''), Img_segment [], Text_segment (lit ''BC'')]"
proof -
  have "merged_runs (document_segments
     (Tag (lit ''div'') Map.empty
        [NavigableString (lit ''A''), Tag (lit ''br'') Map.empty [], Comment (lit ''c''),
         Tag (lit ''img'') Map.empty [],
         NavigableString (lit ''B''), Tag (lit ''i'') Map.empty [NavigableString (lit ''C'')]])) =
     [Text_segment (lit ''A'' @ [10] @ lit ''c''), Img_segment [], Text_segment (lit ''BC'')]"
    by (simp add: lit_def attr_get_def)
  with segments_in_document_order [of
     "Tag (lit ''div'') Map.empty
        [NavigableString (lit ''A''), Tag (lit ''br'') Map.empty [], Comment (lit ''c''),
         Tag (lit ''img'') Map.empty [],
         NavigableString (lit ''B''), Tag (lit ''i'') Map.empty [NavigableString (lit ''C'')]]"]
  show ?thesis by simp
qed

section \<open>The lines of a table\<close>

lemma translate_cells_all:
  "translate_cells lower srv cells acc t s =
     (case translate_all lower srv (filter (\<lambda>c. c \<noteq> []) (map get_text cells)) t s of
        (Inl e, t1, s1) \<Rightarrow> (Inl e, t1, s1)
      | (Inr vs, t1, s1) \<Rightarrow> (Inr (acc @ vs), t1, s1))"
proof (induction cells arbitrary: acc t s)
  case Nil
  show ?case by simp
next
  case (Cons cell rest)
  show ?case
  proof (cases "get_text cell = []")
    case True
    then show ?thesis by (simp add: Cons.IH)
  next
    case False
    then show ?thesis
      by (simp add: Cons.IH split: prod.splits sum.splits)
  qed
qed

lemma translate_all_length:
  "translate_all lower srv xs t s = (Inr vs, t', s') \<Longrightarrow> length vs = length xs"
proof (induction xs arbitrary: vs t s)
  case Nil
  then show ?case by simp
next
  case (Cons x xs)
  then show ?case
    by (auto split: prod.splits sum.splits)
qed

lemma translate_all_empty:
  "translate_all lower srv xs t s = (Inr vs, t', s') \<Longrightarrow> vs \<noteq> [] \<longleftrightarrow> xs \<noteq> []"
  using translate_all_length by fastforce

lemma list_ex_filter: "list_ex P xs \<longleftrightarrow> filter P xs \<noteq> []"
  by (induction xs) auto

lemma process_rows_table_rows:
  "process_rows lower srv rows doc t s =
     (case table_rows lower srv rows t s of (r, ls, t', s') \<Rightarrow> (r, doc @ ls, t', s'))"
proof (induction rows arbitrary: doc t s)
  case Nil
  show ?case by simp
next
  case (Cons row rows)
  let ?texts = "filter (\<lambda>c. c \<noteq> []) (cell_texts row)"
  obtain res t1 s1 where ta: "translate_all lower srv ?texts t s = (res, t1, s1)"
    by (cases "translate_all lower srv ?texts t s")
  show ?case
  proof (cases res)
    case (Inl e)
    with ta show ?thesis
      by (simp add: translate_cells_all cell_texts_def)
  next
    case (Inr vs)
    with ta have "vs \<noteq> [] \<longleftrightarrow> ?texts \<noteq> []"
      by (simp add: translate_all_empty)
    then have "vs \<noteq> [] \<longleftrightarrow> list_ex (\<lambda>c. c \<noteq> []) (cell_texts row)"
      by (simp add: list_ex_filter)
    with ta Inr show ?thesis
      by (simp add: translate_cells_all cell_texts_def Cons.IH split: prod.splits)
  qed
qed

lemma table_rows_count:
  "table_rows lower srv rows t s = (None, ls, t', s') \<Longrightarrow>
     length ls = length (filter (\<lambda>row. list_ex (\<lambda>c. c \<noteq> []) (cell_texts row)) rows)"
proof (induction rows arbitrary: ls t s)
  case Nil
  then show ?case by simp
next
  case (Cons row rows)
  then show ?case
    by (auto split: prod.splits sum.splits if_splits)
qed

lemmas table_evals = process_table_def find_all_def get_text_def cell_texts_def

lemma table_example:
  "process_table ascii_lower marking_service
     (Tag (lit ''table'') Map.empty
        [Tag (lit ''tr'') Map.empty
           [Tag (lit ''td'') Map.empty [NavigableString (lit ''a'')],
            Tag (lit ''td'') Map.empty [NavigableString (lit ''b'')]],
         Tag (lit ''tr'') Map.empty
           [Tag (lit ''td'') Map.empty [],
            Tag (lit ''td'') Map.empty [NavigableString (lit ''  '')]]])
     [] default_client start =
   (None, [[35793] @ lit ''a'' @ [9] @ [35793] @ lit ''b''],
    snd (snd (process_table ascii_lower marking_service
     (Tag (lit ''table'') Map.empty
        [Tag (lit ''tr'') Map.empty
           [Tag (lit ''td'') Map.empty [NavigableString (lit ''a'')],
            Tag (lit ''td'') Map.empty [NavigableString (lit ''b'')]],
         Tag (lit ''tr'') Map.empty
           [Tag (lit ''td'') Map.empty [],
            Tag (lit ''td'') Map.empty [NavigableString (lit ''  '')]]])
     [] default_client start)))"
  by (simp add: table_evals client_evals cleaning_evals string_evals)

text \<open>
  C8, as the claim states it, fails on a row with an empty cell between two others: the
  guard \<^verbatim>\<open>if cell_text:\<close> leaves the empty cell out of the line, so the row of the
  cells \<^verbatim>\<open>a\<close>, empty and \<^verbatim>\<open>c\<close> gives the two translations with one tab between
  them, where the cell texts of the row, each translated and joined, have two.
\<close>

theorem empty_cell_in_row_counterexample:
  "fst (snd (process_table ascii_lower marking_service
     (Tag (lit ''table'') Map.empty
        [Tag (lit ''tr'') Map.empty
           [Tag (lit ''td'') Map.empty [NavigableString (lit ''a'')],
            Tag (lit ''td'') Map.empty [],
            Tag (lit ''td'') Map.empty [NavigableString (lit ''c'')]]])
     [] default_client start)) =
     [[35793] @ lit ''a'' @ [9] @ [35793] @ lit ''c''] \<and>
   fst (snd (claimed_rows ascii_lower marking_service
     (find_all [lit ''tr'']
       (Tag (lit ''table'') Map.empty
        [Tag (lit ''tr'') Map.empty
           [Tag (lit ''td'') Map.empty [NavigableString (lit ''a'')],
            Tag (lit ''td'') Map.empty [],
            Tag (lit ''td'') Map.empty [NavigableString (lit ''c'')]]]))
     default_client start)) =
     [[35793] @ lit ''a'' @ [9, 9] @ [35793] @ lit ''c'']"
  by (simp add: table_evals client_evals cleaning_evals string_evals)

text \<open>
  C8, amended. For every table block, the cell texts of each row that are not empty are
  translated one after the other and joined with a tab into exactly one output line for
  the row, appended to the document, and a row with no non-empty cell produces no line;
  an error of the translation ends the table after the lines of the rows before it. So
  when no error is raised there are as many new lines as rows with a non-empty cell. In
  particular the rows of the cells \<^verbatim>\<open>a\<close>, \<^verbatim>\<open>b\<close> and of an empty and a blank cell give
  exactly one line, the translations of \<^verbatim>\<open>a\<close> and \<^verbatim>\<open>b\<close> joined by a tab.
\<close>

theorem table_row_lines:
  "process_table lower srv tag doc t s =
     (case table_rows lower srv (find_all [lit ''tr''] tag) t s of
        (r, ls, t', s') \<Rightarrow> (r, doc @ ls, t', s')) \<and>
   (fst (process_table lower srv tag doc t s) = None \<longrightarrow>
      length (fst (snd (process_table lower srv tag doc t s))) =
        length doc +
        length (filter (\<lambda>row. list_ex (\<lambda>c. c \<noteq> []) (cell_texts row))
                  (find_all [lit ''tr''] tag))) \<and>
   fst (process_table ascii_lower marking_service
     (Tag (lit ''table'') Map.empty
        [Tag (lit ''tr'') Map.empty
           [Tag (lit ''td'') Map.empty [NavigableString (lit ''a'')],
            Tag (lit ''td'') Map.empty [NavigableString (lit ''b'')]],
         Tag (lit ''tr'') Map.empty
           [Tag (lit ''td'') Map.empty [],
            Tag (lit ''td'') Map.empty [NavigableString (lit ''  '')]]])
     [] default_client start) = None \<and>
   fst (snd (process_table ascii_lower marking_service
     (Tag (lit ''table'') Map.empty
        [Tag (lit ''tr'') Map.empty
           [Tag (lit ''td'') Map.empty [NavigableString (lit ''a'')],
            Tag (lit ''td'') Map.empty [NavigableString (lit ''b'')]],
         Tag (lit ''tr'') Map.empty
           [Tag (lit ''td'') Map.empty [],
            Tag (lit ''td'') Map.empty [NavigableString (lit ''  '')]]])
     [] default_client start)) = [[35793] @ lit ''a'' @ [9] @ [35793] @ lit ''b'']"
proof -
  obtain r ls t' s' where
    rows: "table_rows lower srv (find_all [lit ''tr''] tag) t s = (r, ls, t', s')"
    by (cases "table_rows lower srv (find_all [lit ''tr''] tag) t s")
  then have whole: "process_table lower srv tag doc t s = (r, doc @ ls, t', s')"
    by (simp add: process_table_def process_rows_table_rows)
  have "r = None \<longrightarrow> length ls =
      length (filter (\<lambda>row. list_ex (\<lambda>c. c \<noteq> []) (cell_texts row))
                (find_all [lit ''tr''] tag))"
    using rows table_rows_count by blast
  with rows whole have general: "process_table lower srv tag doc t s =
     (case table_rows lower srv (find_all [lit ''tr''] tag) t s of
        (r, ls, t', s') \<Rightarrow> (r, doc @ ls, t', s')) \<and>
   (fst (process_table lower srv tag doc t s) = None \<longrightarrow>
      length (fst (snd (process_table lower srv tag doc t s))) =
        length doc +
        length (filter (\<lambda>row. list_ex (\<lambda>c. c \<noteq> []) (cell_texts row))
                  (find_all [lit ''tr''] tag)))"
    by simp
  from table_example have "fst (process_table ascii_lower marking_service
     (Tag (lit ''table'') Map.empty
        [Tag (lit ''tr'') Map.empty
           [Tag (lit ''td'') Map.empty [NavigableString (lit ''a'')],
            Tag (lit ''td'') Map.empty [NavigableString (lit ''b'')]],
         Tag (lit ''tr'') Map.empty
           [Tag (lit ''td'') Map.empty [],
            Tag (lit ''td'') Map.empty [NavigableString (lit ''  '')]]])
     [] default_client start) = None \<and>
   fst (snd (process_table ascii_lower marking_service
     (Tag (lit ''table'') Map.empty
        [Tag (lit ''tr'') Map.empty
           [Tag (lit ''td'') Map.empty [NavigableString (lit ''a'')],
            Tag (lit ''td'') Map.empty [NavigableString (lit ''b'')]],
         Tag (lit ''tr'') Map.empty
           [Tag (lit ''td'') Map.empty [],
            Tag (lit ''td'') Map.empty [NavigableString (lit ''  '')]]])
     [] default_client start)) = [[35793] @ lit ''a'' @ [9] @ [35793] @ lit ''b'']"
    by (metis fst_conv snd_conv)
  with general show ?thesis by blast
qed

theorem table_row_lines_witness:
  "fst (table_rows ascii_lower marking_service
     (find_all [lit ''tr'']
        (Tag (lit ''table'') Map.empty
           [Tag (lit ''tr'') Map.empty
              [Tag (lit ''th'') Map.empty [NavigableString (lit ''a'')],
               Tag (lit ''td'') Map.empty [],
               Tag (lit ''td'') Map.empty [NavigableString (lit ''c'')]]]))
     default_client start) = None \<and>
   fst (process_table ascii_lower marking_service
     (Tag (lit ''table'') Map.empty
        [Tag (lit ''tr'') Map.empty
           [Tag (lit ''th'') Map.empty [NavigableString (lit ''a'')],
            Tag (lit ''td'') Map.empty [],
            Tag (lit ''td'') Map.empty [NavigableString (lit ''c'')]]])
     [lit ''x''] default_client start) = None \<and>
   fst (snd (process_table ascii_lower marking_service
     (Tag (lit ''table'') Map.empty
        [Tag (lit ''tr'') Map.empty
           [Tag (lit ''th'') Map.empty [NavigableString (lit ''a'')],
            Tag (lit ''td'') Map.empty [],
            Tag (lit ''td'') Map.empty [NavigableString (lit ''c'')]]])
     [lit ''x''] default_client start)) =
     [lit ''x'', [35793] @ lit ''a'' @ [9] @ [35793] @ lit ''c''] \<and>
   length (fst (snd (process_table ascii_lower marking_service
     (Tag (lit ''table'') Map.empty
        [Tag (lit ''tr'') Map.empty
           [Tag (lit ''th'') Map.empty [NavigableString (lit ''a'')],
            Tag (lit ''td'') Map.empty [],
            Tag (lit ''td'') Map.empty [NavigableString (lit ''c'')]]])
     [lit ''x''] default_client start))) = 2"
proof -
  let ?table = "Tag (lit ''table'') Map.empty
        [Tag (lit ''tr'') Map.empty
           [Tag (lit ''th'') Map.empty [NavigableString (lit ''a'')],
            Tag (lit ''td'') Map.empty [],
            Tag (lit ''td'') Map.empty [NavigableString (lit ''c'')]]]"
  have rows: "table_rows ascii_lower marking_service (find_all [lit ''tr''] ?table)
      default_client start =
      (None, [[35793] @ lit ''a'' @ [9] @ [35793] @ lit ''c''],
       snd (snd (table_rows ascii_lower marking_service (find_all [lit ''tr''] ?table)
         default_client start)))"
    by (simp add: table_evals client_evals cleaning_evals string_evals)
  have "fst (table_rows ascii_lower marking_service (find_all [lit ''tr''] ?table)
      default_client start) = None"
    "fst (snd (table_rows ascii_lower marking_service (find_all [lit ''tr''] ?table)
      default_client start)) = [[35793] @ lit ''a'' @ [9] @ [35793] @ lit ''c'']"
    using rows by (metis fst_conv, metis fst_conv snd_conv)
  with table_row_lines [of ascii_lower marking_service ?table "[lit ''x'']" default_client start]
  show ?thesis
    by (simp add: split_beta)
qed

end
